theory Spec2Isabelle
  imports Main "HOL-Library.Word" "HOL-Library.Multiset"
begin

section \<open>The weak reference pool of the Golua runtime\<close>

text \<open>
  This theory embeds \<^verbatim>\<open>UnsafePool\<close> of package \<^verbatim>\<open>weakref\<close>
  (\<^verbatim>\<open>src/runtime/internal/weakref/weakref.go\<close>): the registry of weak references, the
  queue of values pending finalization and the mark order counter, together with the
  reclamation callback \<^verbatim>\<open>addPendingGC\<close> and \<^verbatim>\<open>weakRef.Value\<close>.

  Every method of the pool and the callback take the pool mutex \<^verbatim>\<open>mx\<close> for all their
  accesses to shared state, so each of them is one atomic step on the state below.
\<close>

subsection \<open>Interface values and their unsafe copies\<close>

text \<open>
  A Go value of type \<^verbatim>\<open>interface{}\<close> is two machine words: the address of the descriptor
  of its dynamic type and the data word. \<^verbatim>\<open>wiface\<close> is \<^verbatim>\<open>[2]uintptr\<close>, the same two words
  copied bit for bit (\<^verbatim>\<open>getwiface\<close>), and \<^verbatim>\<open>iface()\<close> reads the two words back as an
  interface value. The nil interface has both words zero. A machine word has 64 bits, as
  on the 64 bit platforms of Go.
\<close>

type_synonym uintptr = "64 word"

record eface =
  etype :: uintptr
  edata :: uintptr

type_synonym wiface = "uintptr \<times> uintptr"

definition nil_iface :: eface where
  "nil_iface = \<lparr>etype = 0, edata = 0\<rparr>"

definition getwiface :: "eface \<Rightarrow> wiface" where
  "getwiface iface = (etype iface, edata iface)"

text \<open>\<^verbatim>\<open>func (w wiface) id() uintptr { return w[1] }\<close>\<close>

definition wiface_id :: "wiface \<Rightarrow> uintptr" where
  "wiface_id wi = snd wi"

text \<open>\<^verbatim>\<open>func (w wiface) iface() interface{}\<close>\<close>

definition wiface_iface :: "wiface \<Rightarrow> eface" where
  "wiface_iface wi = \<lparr>etype = fst wi, edata = snd wi\<rparr>"

subsection \<open>Weak references, ordered values and the pool\<close>

datatype wrStatus = wrAlive | wrDead | wrResurrected

text \<open>
  \<^verbatim>\<open>markOrder\<close> and \<^verbatim>\<open>lastMarkOrder\<close> have Go type \<^verbatim>\<open>int\<close>, a 64 bit two's complement
  integer on 64 bit platforms: they are modelled as \<open>int\<close>, and the one arithmetic
  operation on them, \<^verbatim>\<open>p.lastMarkOrder++\<close>, wraps around (\<open>int_incr\<close>).
  The field \<^verbatim>\<open>pool\<close> of a \<^verbatim>\<open>weakRef\<close> points back to the one pool of the model.
\<close>

record weakRef =
  w :: wiface
  markOrder :: int
  status :: wrStatus

record orderedVal =
  val :: eface
  order :: int

definition maxInt :: int where
  "maxInt = 2 ^ 63 - 1"

definition minInt :: int where
  "minInt = - (2 ^ 63)"

definition int_incr :: "int \<Rightarrow> int" where
  "int_incr n = (if n = maxInt then minInt else n + 1)"

text \<open>
  A \<^verbatim>\<open>*weakRef\<close> is an address in \<open>heap\<close>, the memory holding the \<^verbatim>\<open>weakRef\<close> structs
  allocated by \<^verbatim>\<open>get\<close>: the registry and the callers share the struct behind a handle, and
  allocation appends a struct at the next free address.

  \<open>finalizers\<close> is the finalizer table of the Go runtime, restricted to the entries set by
  this pool (whose finalizer is always \<^verbatim>\<open>p.addPendingGC\<close>): it maps the address of an
  object to the type word of the pointer that \<^verbatim>\<open>runtime.SetFinalizer\<close> was given.
  A slice that is \<^verbatim>\<open>nil\<close> is the empty list: \<^verbatim>\<open>append\<close> never leaves \<^verbatim>\<open>pending\<close> empty
  and not nil.
\<close>

type_synonym ref = nat

record pool =
  weakrefs :: "uintptr \<rightharpoonup> ref"
  pending :: "orderedVal list"
  lastMarkOrder :: int
  heap :: "weakRef list"
  finalizers :: "uintptr \<rightharpoonup> uintptr"

definition NewUnsafePool :: pool where
  "NewUnsafePool =
     \<lparr>weakrefs = Map.empty, pending = [], lastMarkOrder = 0, heap = [], finalizers = Map.empty\<rparr>"

subsection \<open>The Go runtime: finalizers\<close>

text \<open>
  \<^verbatim>\<open>runtime.SetFinalizer(obj, finalizer)\<close> belongs to the Go runtime. Before anything else
  it examines \<^verbatim>\<open>obj\<close>, both words of it, and aborts the program when \<^verbatim>\<open>obj\<close> is the nil
  interface, when its dynamic type is not a pointer type, when the pointer was allocated
  in an arena, when it does not point into the heap (a nil pointer does not), and when it
  does not point to the beginning of an allocated block. When the pointer is a Go pointer
  outside the heap spans (a zero size object, a linker allocated global) the call returns
  and has no effect. Otherwise the pointer is one the runtime tracks: a nil
  \<^verbatim>\<open>finalizer\<close> clears the finalizer of the object, and setting a finalizer on an object that
  has one aborts the program.

  What the runtime finds at an interface value depends on the types and the allocations
  of the Go program: the function \<open>objectAt\<close> is a parameter of the model. The flag \<open>arm\<close>
  tells the call with \<^verbatim>\<open>p.addPendingGC\<close> from the call with \<^verbatim>\<open>nil\<close>.
\<close>

datatype crash =
  FirstArgumentNil
| NotPointer
| AllocatedInArena
| NotInHeap
| NotAtBlockStart
| FinalizerAlreadySet

datatype object = Rejected crash | Untracked | Tracked

fun accepts :: "object \<Rightarrow> bool" where
  "accepts (Rejected c) = False"
| "accepts Untracked = True"
| "accepts Tracked = True"

definition SetFinalizer ::
  "(eface \<Rightarrow> object) \<Rightarrow> eface \<Rightarrow> bool \<Rightarrow> (uintptr \<rightharpoonup> uintptr) \<Rightarrow> crash + (uintptr \<rightharpoonup> uintptr)" where
  "SetFinalizer objectAt obj arm fs =
     (case objectAt obj of
        Rejected c \<Rightarrow> Inl c
      | Untracked \<Rightarrow> Inr fs
      | Tracked \<Rightarrow>
          if \<not> arm then Inr (fs(edata obj := None))
          else if fs (edata obj) \<noteq> None then Inl FinalizerAlreadySet
          else Inr (fs(edata obj \<mapsto> etype obj)))"

subsection \<open>Get and Mark\<close>

text \<open>
  \<^verbatim>\<open>get\<close> registers a value under \<^verbatim>\<open>getwiface(iface).id()\<close>. \<^verbatim>\<open>UnsafePool.Mark\<close> has the one
  parameter \<^verbatim>\<open>iface\<close>: it takes no flags, although the interface \<^verbatim>\<open>Pool\<close> declares
  \<^verbatim>\<open>Mark(v, flags)\<close>.
\<close>

definition get :: "(eface \<Rightarrow> object) \<Rightarrow> eface \<Rightarrow> pool \<Rightarrow> crash + (ref \<times> pool)" where
  "get objectAt iface p =
     (let wi = getwiface iface; i = wiface_id wi in
      case weakrefs p i of
        Some r \<Rightarrow> Inr (r, p)
      | None \<Rightarrow>
          (case SetFinalizer objectAt iface True (finalizers p) of
             Inl e \<Rightarrow> Inl e
           | Inr fs \<Rightarrow>
               let r = length (heap p) in
               Inr (r, p\<lparr>weakrefs := (weakrefs p)(i \<mapsto> r),
                          heap := heap p @ [\<lparr>w = getwiface iface, markOrder = 0, status = wrAlive\<rparr>],
                          finalizers := fs\<rparr>)))"

definition Get :: "(eface \<Rightarrow> object) \<Rightarrow> eface \<Rightarrow> pool \<Rightarrow> crash + (ref \<times> pool)" where
  "Get objectAt iface p = get objectAt iface p"

definition Mark :: "(eface \<Rightarrow> object) \<Rightarrow> eface \<Rightarrow> pool \<Rightarrow> crash + pool" where
  "Mark objectAt iface p =
     (let p1 = p\<lparr>lastMarkOrder := int_incr (lastMarkOrder p)\<rparr> in
      case get objectAt iface p1 of
        Inl e \<Rightarrow> Inl e
      | Inr (r, p2) \<Rightarrow>
          Inr (p2\<lparr>heap := (heap p2)[r := (heap p2 ! r)\<lparr>markOrder := lastMarkOrder p2\<rparr>]\<rparr>))"

subsection \<open>Sorting by reverse mark order\<close>

text \<open>
  \<^verbatim>\<open>Less(i, j)\<close> is \<^verbatim>\<open>vs[i].order > vs[j].order\<close>. \<^verbatim>\<open>sort.Sort\<close> is the sort of the Go
  library, which orders a slice by \<^verbatim>\<open>Less\<close> and is not stable; it is modelled by an
  insertion sort. Lemma \<open>sort_Sort_unique\<close> shows that on distinct orders every list with
  the same elements that is ordered by \<^verbatim>\<open>Less\<close> is the one computed here.
\<close>

definition Less :: "orderedVal \<Rightarrow> orderedVal \<Rightarrow> bool" where
  "Less a b = (order a > order b)"

fun insertLess :: "orderedVal \<Rightarrow> orderedVal list \<Rightarrow> orderedVal list" where
  "insertLess x [] = [x]"
| "insertLess x (y # ys) = (if Less x y then x # y # ys else y # insertLess x ys)"

fun sort_Sort :: "orderedVal list \<Rightarrow> orderedVal list" where
  "sort_Sort [] = []"
| "sort_Sort (x # xs) = insertLess x (sort_Sort xs)"

definition vals :: "orderedVal list \<Rightarrow> eface list" where
  "vals vs = map val vs"

subsection \<open>Extraction\<close>

text \<open>
  \<^verbatim>\<open>UnsafePool\<close> has two extraction methods: \<^verbatim>\<open>ExtractDeadMarked\<close>, the extraction of the
  pending values (\<^verbatim>\<open>ExtractPendingFinalize\<close> in the interface \<^verbatim>\<open>Pool\<close>), and
  \<^verbatim>\<open>ExtractAllMarked\<close>, the extraction of all marked values (\<^verbatim>\<open>ExtractAllMarkedFinalize\<close>).
  \<^verbatim>\<open>runPrefinalizers\<close> is not part of the sources at hand: it is a parameter of the two
  extraction methods, a function from the sorted list of values to the returned list.
  The call of \<^verbatim>\<open>log.Printf\<close> writes to the log and has no effect on the pool.
\<close>

definition ExtractDeadMarked :: "(eface list \<Rightarrow> eface list) \<Rightarrow> pool \<Rightarrow> eface list \<times> pool" where
  "ExtractDeadMarked runPrefinalizers p =
     (if pending p = [] then ([], p)
      else (runPrefinalizers (vals (sort_Sort (pending p))), p\<lparr>pending := []\<rparr>))"

text \<open>
  \<^verbatim>\<open>for _, r := range p.weakrefs\<close> visits every entry of the map once, in an order that Go
  leaves unspecified: the list of keys in the order of the visit is a parameter.
\<close>

fun rangeWeakrefs ::
  "(eface \<Rightarrow> object) \<Rightarrow> uintptr list \<Rightarrow> orderedVal list \<Rightarrow> pool \<Rightarrow> crash + (orderedVal list \<times> pool)" where
  "rangeWeakrefs objectAt [] marked p = Inr (marked, p)"
| "rangeWeakrefs objectAt (k # ks) marked p =
     (case weakrefs p k of
        None \<Rightarrow> rangeWeakrefs objectAt ks marked p
      | Some r \<Rightarrow>
          if markOrder (heap p ! r) > 0 then
            (let iface = wiface_iface (w (heap p ! r)) in
             case SetFinalizer objectAt iface False (finalizers p) of
               Inl e \<Rightarrow> Inl e
             | Inr fs \<Rightarrow>
                 rangeWeakrefs objectAt ks
                   (marked @ [\<lparr>val = iface, order = markOrder (heap p ! r)\<rparr>])
                   (p\<lparr>heap := (heap p)[r := (heap p ! r)\<lparr>markOrder := 0\<rparr>], finalizers := fs\<rparr>))
          else rangeWeakrefs objectAt ks marked p)"

definition ExtractAllMarked ::
  "(eface \<Rightarrow> object) \<Rightarrow> (eface list \<Rightarrow> eface list) \<Rightarrow> uintptr list \<Rightarrow> pool \<Rightarrow> crash + (eface list \<times> pool)" where
  "ExtractAllMarked objectAt runPrefinalizers ks p =
     (case rangeWeakrefs objectAt ks (pending p) p of
        Inl e \<Rightarrow> Inl e
      | Inr (marked, p1) \<Rightarrow> Inr (runPrefinalizers (vals (sort_Sort marked)), p1\<lparr>pending := []\<rparr>))"

subsection \<open>The reclamation callback and Value\<close>

definition addPendingGC :: "(eface \<Rightarrow> object) \<Rightarrow> eface \<Rightarrow> pool \<Rightarrow> crash + pool" where
  "addPendingGC objectAt iface p =
     (let i = wiface_id (getwiface iface) in
      case weakrefs p i of
        None \<Rightarrow> Inr p
      | Some r \<Rightarrow>
          if status (heap p ! r) = wrResurrected then
            (case SetFinalizer objectAt iface True (finalizers p) of
               Inl e \<Rightarrow> Inl e
             | Inr fs \<Rightarrow>
                 Inr (p\<lparr>heap := (heap p)[r := (heap p ! r)\<lparr>status := wrAlive\<rparr>], finalizers := fs\<rparr>))
          else
            (let p1 = p\<lparr>heap := (heap p)[r := (heap p ! r)\<lparr>status := wrDead\<rparr>]\<rparr>;
                 p2 = (if markOrder (heap p1 ! r) > 0
                       then p1\<lparr>pending := pending p1 @ [\<lparr>val = iface, order = markOrder (heap p1 ! r)\<rparr>]\<rparr>
                       else p1)
             in Inr (p2\<lparr>weakrefs := (weakrefs p2)(i := None)\<rparr>)))"

text \<open>
  The host collector: when it finds the object unreachable it clears the entry of the
  finalizer table and runs the finalizer on the pointer that was registered.
\<close>

definition runFinalizer :: "(eface \<Rightarrow> object) \<Rightarrow> uintptr \<Rightarrow> pool \<Rightarrow> crash + pool" where
  "runFinalizer objectAt a p =
     (case finalizers p a of
        None \<Rightarrow> Inr p
      | Some t \<Rightarrow> addPendingGC objectAt \<lparr>etype = t, edata = a\<rparr> (p\<lparr>finalizers := (finalizers p)(a := None)\<rparr>))"

definition Value :: "ref \<Rightarrow> pool \<Rightarrow> eface \<times> pool" where
  "Value r p =
     (if status (heap p ! r) = wrDead then (nil_iface, p)
      else (wiface_iface (w (heap p ! r)),
            p\<lparr>heap := (heap p)[r := (heap p ! r)\<lparr>status := wrResurrected\<rparr>]\<rparr>))"

subsection \<open>Histories of a pool\<close>

text \<open>
  The owner of the pool calls \<^verbatim>\<open>Get\<close>, \<^verbatim>\<open>Mark\<close>, \<^verbatim>\<open>Value\<close> and the extraction methods, and
  the host collector runs finalizers; each event is one locked step. A handle passed to
  \<^verbatim>\<open>Value\<close> is one that \<^verbatim>\<open>Get\<close> returned, hence an allocated address.
\<close>

datatype event =
  EvGet eface
| EvMark eface
| EvValue ref
| EvGC uintptr
| EvExtractDead
| EvExtractAll "uintptr list"

datatype result = RNone | RHandle ref | RValue eface | RDead "eface list" | RAll "eface list"

definition step ::
  "(eface \<Rightarrow> object) \<Rightarrow> (eface list \<Rightarrow> eface list) \<Rightarrow> event \<Rightarrow> pool \<Rightarrow> crash + (result \<times> pool)" where
  "step objectAt runPrefinalizers ev p =
     (case ev of
        EvGet v \<Rightarrow>
          (case Get objectAt v p of Inl e \<Rightarrow> Inl e | Inr (r, p1) \<Rightarrow> Inr (RHandle r, p1))
      | EvMark v \<Rightarrow>
          (case Mark objectAt v p of Inl e \<Rightarrow> Inl e | Inr p1 \<Rightarrow> Inr (RNone, p1))
      | EvValue r \<Rightarrow>
          (if r < length (heap p) then Inr (RValue (fst (Value r p)), snd (Value r p))
           else Inr (RNone, p))
      | EvGC a \<Rightarrow>
          (case runFinalizer objectAt a p of Inl e \<Rightarrow> Inl e | Inr p1 \<Rightarrow> Inr (RNone, p1))
      | EvExtractDead \<Rightarrow>
          Inr (RDead (fst (ExtractDeadMarked runPrefinalizers p)),
               snd (ExtractDeadMarked runPrefinalizers p))
      | EvExtractAll ks \<Rightarrow>
          (case ExtractAllMarked objectAt runPrefinalizers ks p of
             Inl e \<Rightarrow> Inl e
           | Inr (vs, p1) \<Rightarrow> Inr (RAll vs, p1)))"

fun run ::
  "(eface \<Rightarrow> object) \<Rightarrow> (eface list \<Rightarrow> eface list) \<Rightarrow> event list \<Rightarrow> pool \<Rightarrow>
   crash + (result list \<times> pool)" where
  "run objectAt runPrefinalizers [] p = Inr ([], p)"
| "run objectAt runPrefinalizers (ev # evs) p =
     (case step objectAt runPrefinalizers ev p of
        Inl e \<Rightarrow> Inl e
      | Inr (out, p1) \<Rightarrow>
          (case run objectAt runPrefinalizers evs p1 of
             Inl e \<Rightarrow> Inl e
           | Inr (outs, p2) \<Rightarrow> Inr (out # outs, p2)))"

text \<open>Bookkeeping on histories, by the data word that identifies a value.\<close>

definition countData :: "uintptr \<Rightarrow> eface list \<Rightarrow> nat" where
  "countData a vs = length (filter (\<lambda>v. edata v = a) vs)"

fun deadReturns :: "uintptr \<Rightarrow> result list \<Rightarrow> nat" where
  "deadReturns a [] = 0"
| "deadReturns a (RDead vs # outs) = countData a vs + deadReturns a outs"
| "deadReturns a (out # outs) = deadReturns a outs"

fun creates :: "uintptr \<Rightarrow> event \<Rightarrow> pool \<Rightarrow> bool" where
  "creates a (EvGet v) p = (edata v = a \<and> weakrefs p a = None)"
| "creates a (EvMark v) p = (edata v = a \<and> weakrefs p a = None)"
| "creates a ev p = False"

fun created ::
  "(eface \<Rightarrow> object) \<Rightarrow> (eface list \<Rightarrow> eface list) \<Rightarrow> uintptr \<Rightarrow> event list \<Rightarrow> pool \<Rightarrow> nat" where
  "created objectAt runPrefinalizers a [] p = 0"
| "created objectAt runPrefinalizers a (ev # evs) p =
     (if creates a ev p then 1 else 0) +
     (case step objectAt runPrefinalizers ev p of
        Inl e \<Rightarrow> 0
      | Inr (out, p1) \<Rightarrow> created objectAt runPrefinalizers a evs p1)"

fun isExtract :: "event \<Rightarrow> bool" where
  "isExtract EvExtractDead = True"
| "isExtract (EvExtractAll ks) = True"
| "isExtract ev = False"

fun reclaimed :: "event list \<Rightarrow> uintptr list" where
  "reclaimed [] = []"
| "reclaimed (EvGC a # evs) = a # reclaimed evs"
| "reclaimed (ev # evs) = reclaimed evs"

subsection \<open>Well-formed pools\<close>

text \<open>
  What holds of the pool between any two of its steps, as long as the counter has not
  wrapped around. The registry: finitely many entries, each at an allocated address whose
  struct was made for a value that \<^verbatim>\<open>runtime.SetFinalizer\<close> accepts and that has the
  entry's key as data word, and never dead (\<^verbatim>\<open>addPendingGC\<close> removes the entry in the
  step that marks it dead). The finalizer table: only registered objects that the runtime
  tracks carry the pool's finalizer. The mark orders: positive in
  the queue, bounded by the counter, and different for different entries.
\<close>

definition registry_ok :: "(eface \<Rightarrow> object) \<Rightarrow> pool \<Rightarrow> bool" where
  "registry_ok objectAt p =
     (finite (dom (weakrefs p)) \<and>
      (\<forall>a r. weakrefs p a = Some r \<longrightarrow>
         r < length (heap p) \<and> wiface_id (w (heap p ! r)) = a \<and>
         accepts (objectAt (wiface_iface (w (heap p ! r)))) \<and> status (heap p ! r) \<noteq> wrDead))"

definition finalizers_ok :: "(eface \<Rightarrow> object) \<Rightarrow> pool \<Rightarrow> bool" where
  "finalizers_ok objectAt p =
     (\<forall>a t. finalizers p a = Some t \<longrightarrow>
        objectAt \<lparr>etype = t, edata = a\<rparr> = Tracked \<and> weakrefs p a \<noteq> None)"

definition orders_ok :: "pool \<Rightarrow> bool" where
  "orders_ok p =
     (0 \<le> lastMarkOrder p \<and>
      (\<forall>ov \<in> set (pending p). 0 < order ov \<and> order ov \<le> lastMarkOrder p) \<and>
      distinct (map order (pending p)) \<and>
      (\<forall>a r. weakrefs p a = Some r \<longrightarrow>
         markOrder (heap p ! r) \<le> lastMarkOrder p \<and>
         (0 < markOrder (heap p ! r) \<longrightarrow> markOrder (heap p ! r) \<notin> order ` set (pending p))) \<and>
      (\<forall>a b ra rb. weakrefs p a = Some ra \<and> weakrefs p b = Some rb \<and> a \<noteq> b \<and>
         0 < markOrder (heap p ! ra) \<longrightarrow> markOrder (heap p ! ra) \<noteq> markOrder (heap p ! rb)))"

definition pool_inv :: "(eface \<Rightarrow> object) \<Rightarrow> pool \<Rightarrow> bool" where
  "pool_inv objectAt p = (registry_ok objectAt p \<and> finalizers_ok objectAt p \<and> orders_ok p)"

text \<open>The entry that the loop of \<^verbatim>\<open>ExtractAllMarked\<close> appends for a key of the registry.\<close>

definition markedEntry :: "pool \<Rightarrow> uintptr \<Rightarrow> orderedVal list" where
  "markedEntry p k =
     (case weakrefs p k of
        None \<Rightarrow> []
      | Some r \<Rightarrow>
          if 0 < markOrder (heap p ! r)
          then [\<lparr>val = wiface_iface (w (heap p ! r)), order = markOrder (heap p ! r)\<rparr>]
          else [])"

text \<open>A pool without marks: nothing is pending and no registered handle is marked.\<close>

definition unmarked :: "pool \<Rightarrow> bool" where
  "unmarked p =
     (pending p = [] \<and>
      (\<forall>a r. weakrefs p a = Some r \<longrightarrow> r < length (heap p) \<and> \<not> 0 < markOrder (heap p ! r)))"

fun extracted :: "result \<Rightarrow> eface list" where
  "extracted (RDead vs) = vs"
| "extracted (RAll vs) = vs"
| "extracted out = []"

fun isMark :: "event \<Rightarrow> bool" where
  "isMark (EvMark v) = True"
| "isMark ev = False"

text \<open>
  What the loop of \<^verbatim>\<open>ExtractAllMarked\<close> over the keys \<open>ks\<close> does to the pool: it sets
  the mark order of the marked handles it visits to 0, clears finalizers, and changes
  nothing else.
\<close>

definition marksCleared :: "uintptr list \<Rightarrow> pool \<Rightarrow> pool \<Rightarrow> bool" where
  "marksCleared ks p p1 =
     (weakrefs p1 = weakrefs p \<and> pending p1 = pending p \<and> lastMarkOrder p1 = lastMarkOrder p \<and>
      length (heap p1) = length (heap p) \<and>
      (\<forall>i. w (heap p1 ! i) = w (heap p ! i) \<and> status (heap p1 ! i) = status (heap p ! i)) \<and>
      (\<forall>a r. weakrefs p a = Some r \<longrightarrow>
         markOrder (heap p1 ! r) =
           (if a \<in> set ks \<and> 0 < markOrder (heap p ! r) then 0 else markOrder (heap p ! r))) \<and>
      (\<forall>a. finalizers p1 a = None \<or> finalizers p1 a = finalizers p a))"

text \<open>Whether a handle is registered for a data word, as a number.\<close>

definition registered :: "pool \<Rightarrow> uintptr \<Rightarrow> nat" where
  "registered p a = (if weakrefs p a = None then 0 else 1)"



text \<open>An event whose visit of the registry, if it has one, visits no key twice.\<close>

fun distinctVisit :: "event \<Rightarrow> bool" where
  "distinctVisit (EvExtractAll ks) = distinct ks"
| "distinctVisit ev = True"

subsection \<open>Example values\<close>

text \<open>
  A small Go program for the concrete instances below: the type words 16 and 32 describe
  pointer types, every other type word does not, and the heap has two allocated blocks
  of 64 bytes that begin at the addresses 64 and 128. \<open>exA\<close> and \<open>exB\<close> are pointers to
  the two blocks, \<open>exA'\<close> is a pointer of the other type to the address of \<open>exA\<close> (its
  first field), \<open>exInner\<close> points into the middle of the first block, \<open>exNil\<close> is a nil
  pointer and \<open>exInt\<close> is an integer boxed in an interface. \<open>noHook\<close> is a
  \<^verbatim>\<open>runPrefinalizers\<close> that returns its argument.
\<close>

definition exampleObj :: "eface \<Rightarrow> object" where
  "exampleObj v =
     (if etype v = 0 then Rejected FirstArgumentNil
      else if etype v \<noteq> 16 \<and> etype v \<noteq> 32 then Rejected NotPointer
      else if edata v = 64 \<or> edata v = 128 then Tracked
      else if 64 < edata v \<and> edata v < 192 then Rejected NotAtBlockStart
      else Rejected NotInHeap)"

definition noHook :: "eface list \<Rightarrow> eface list" where
  "noHook vs = vs"

definition exA :: eface where
  "exA = \<lparr>etype = 16, edata = 64\<rparr>"

definition exB :: eface where
  "exB = \<lparr>etype = 16, edata = 128\<rparr>"

definition exA' :: eface where
  "exA' = \<lparr>etype = 32, edata = 64\<rparr>"

definition exInt :: eface where
  "exInt = \<lparr>etype = 48, edata = 256\<rparr>"

definition exNil :: eface where
  "exNil = \<lparr>etype = 16, edata = 0\<rparr>"

definition exInner :: eface where
  "exInner = \<lparr>etype = 16, edata = 72\<rparr>"

text \<open>The pool after \<open>exA\<close> and \<open>exB\<close> were marked, in this order, and reclaimed.\<close>

definition exPool :: pool where
  "exPool =
     snd (projr (run exampleObj noHook [EvMark exA, EvMark exB, EvGC 64, EvGC 128] NewUnsafePool))"

text \<open>
  The pool after \<open>exA\<close> was marked, and the pool in which the collector then calls
  \<^verbatim>\<open>addPendingGC\<close> for \<open>exA\<close> after \<^verbatim>\<open>Value\<close> was called on its handle: the runtime has
  cleared the finalizer of the object.
\<close>

definition exMarked :: pool where
  "exMarked = projr (Mark exampleObj exA NewUnsafePool)"

definition exResurrected :: pool where
  "exResurrected = (snd (Value 0 exMarked))\<lparr>finalizers := (finalizers exMarked)(64 := None)\<rparr>"


text \<open>The pool after \<open>exA\<close> and \<open>exB\<close> were marked and \<open>exB\<close> alone was reclaimed.\<close>

definition exHalf :: pool where
  "exHalf = snd (projr (run exampleObj noHook [EvMark exA, EvMark exB, EvGC 128] NewUnsafePool))"

text \<open>
  The pool after \<open>exA\<close> and \<open>exB\<close> were marked, and an empty pool whose counter has reached
  the largest \<^verbatim>\<open>int\<close>.
\<close>

definition exTwo :: pool where
  "exTwo = snd (projr (run exampleObj noHook [EvMark exA, EvMark exB] NewUnsafePool))"

definition exFull :: pool where
  "exFull = NewUnsafePool\<lparr>lastMarkOrder := maxInt\<rparr>"

section \<open>Properties\<close>

subsection \<open>The sort\<close>

lemma mset_insertLess: "mset (insertLess x xs) = add_mset x (mset xs)"
  by (induction xs) simp_all

lemma mset_sort_Sort: "mset (sort_Sort xs) = mset xs"
  by (induction xs) (simp_all add: mset_insertLess)

lemma set_insertLess: "set (insertLess x xs) = insert x (set xs)"
  by (induction xs) auto

lemma set_sort_Sort: "set (sort_Sort xs) = set xs"
  by (induction xs) (simp_all add: set_insertLess)

lemma length_sort_Sort: "length (sort_Sort xs) = length xs"
  using mset_sort_Sort [of xs] by (metis size_mset)

lemma insertLess_weak:
  "sorted_wrt (\<lambda>a b. order b \<le> order a) xs \<Longrightarrow> sorted_wrt (\<lambda>a b. order b \<le> order a) (insertLess x xs)"
  by (induction xs) (auto simp: Less_def set_insertLess)

lemma sort_Sort_weak: "sorted_wrt (\<lambda>a b. order b \<le> order a) (sort_Sort xs)"
  by (induction xs) (simp_all add: insertLess_weak)

lemma insertLess_strict:
  "sorted_wrt (\<lambda>a b. order b < order a) xs \<Longrightarrow> order x \<notin> order ` set xs \<Longrightarrow>
   sorted_wrt (\<lambda>a b. order b < order a) (insertLess x xs)"
proof (induction xs)
  case Nil
  then show ?case by simp
next
  case (Cons y ys)
  have "order x \<noteq> order y" using Cons.prems(2) by auto
  then show ?case using Cons by (auto simp: Less_def set_insertLess)
qed

lemma sort_Sort_strict:
  "distinct (map order xs) \<Longrightarrow> sorted_wrt (\<lambda>a b. order b < order a) (sort_Sort xs)"
proof (induction xs)
  case Nil
  then show ?case by simp
next
  case (Cons x xs)
  have "order x \<notin> order ` set (sort_Sort xs)"
    using Cons.prems by (simp add: set_sort_Sort)
  then show ?case using Cons by (simp add: insertLess_strict)
qed

lemma strict_desc_unique:
  "sorted_wrt (\<lambda>a b. order b < order a) xs \<Longrightarrow> sorted_wrt (\<lambda>a b. order b < order a) ys \<Longrightarrow>
   set xs = set ys \<Longrightarrow> xs = ys"
proof (induction xs arbitrary: ys)
  case Nil
  then show ?case by simp
next
  case (Cons x xs)
  then obtain y ys' where ys: "ys = y # ys'" by (cases ys) auto
  have xmax: "\<forall>z \<in> set xs. order z < order x" using Cons.prems(1) by simp
  have ymax: "\<forall>z \<in> set ys'. order z < order y" using Cons.prems(2) ys by simp
  have "x \<in> set (y # ys')" "y \<in> set (x # xs)" using Cons.prems(3) ys by auto
  then have xy: "x = y" using xmax ymax by (metis less_asym set_ConsD)
  have "x \<notin> set xs" "y \<notin> set ys'" using xmax ymax by auto
  then have "set xs = set ys'" using Cons.prems(3) ys xy by auto
  then have "xs = ys'" using Cons.IH [of ys'] Cons.prems(1,2) ys by simp
  then show ?case using xy ys by simp
qed

lemma sort_Sort_unique:
  assumes "distinct (map order xs)" "mset ys = mset xs" "sorted_wrt Less ys"
  shows "ys = sort_Sort xs"
proof -
  have "sorted_wrt (\<lambda>a b. order b < order a) ys"
    using assms(3) by (simp add: Less_def [abs_def])
  moreover have "set ys = set (sort_Sort xs)"
    using assms(2) by (metis set_sort_Sort set_mset_mset)
  ultimately show ?thesis
    using sort_Sort_strict [OF assms(1)] strict_desc_unique by blast
qed

subsection \<open>Evaluation of concrete histories\<close>

lemmas pool_defs =
  step_def Get_def get_def Mark_def SetFinalizer_def runFinalizer_def addPendingGC_def
  ExtractDeadMarked_def ExtractAllMarked_def Value_def NewUnsafePool_def
  getwiface_def wiface_id_def wiface_iface_def nil_iface_def int_incr_def maxInt_def minInt_def
  Let_def vals_def Less_def

lemmas example_defs =
  exampleObj_def noHook_def exA_def exB_def exA'_def exInt_def exNil_def exInner_def

lemma exPool_eval:
  "exPool = \<lparr>weakrefs = Map.empty, pending = [\<lparr>val = exA, order = 1\<rparr>, \<lparr>val = exB, order = 2\<rparr>],
      lastMarkOrder = 2,
      heap = [\<lparr>w = (16, 64), markOrder = 1, status = wrDead\<rparr>,
              \<lparr>w = (16, 128), markOrder = 2, status = wrDead\<rparr>],
      finalizers = Map.empty\<rparr>"
  by (simp add: exPool_def pool_defs example_defs)

subsection \<open>What reaches the pending queue\<close>

lemma get_pending: "get ob v p = Inr (r, p1) \<Longrightarrow> pending p1 = pending p"
  by (auto simp: get_def Let_def split: option.splits sum.splits)

lemma Mark_pending: "Mark ob v p = Inr p1 \<Longrightarrow> pending p1 = pending p"
  by (auto simp: Mark_def Let_def dest!: get_pending split: sum.splits)

lemma Value_pending: "pending (snd (Value r p)) = pending p"
  by (simp add: Value_def)

lemma addPendingGC_pending:
  "addPendingGC ob v p = Inr p1 \<Longrightarrow>
   pending p1 = pending p \<or> (\<exists>n. pending p1 = pending p @ [\<lparr>val = v, order = n\<rparr>])"
  by (auto simp: addPendingGC_def Let_def split: option.splits sum.splits if_splits)

lemma runFinalizer_pending:
  "runFinalizer ob a p = Inr p1 \<Longrightarrow>
   pending p1 = pending p \<or> (\<exists>t n. pending p1 = pending p @ [\<lparr>val = \<lparr>etype = t, edata = a\<rparr>, order = n\<rparr>])"
  by (auto simp: runFinalizer_def split: option.splits dest!: addPendingGC_pending)

lemma step_pending_arrival:
  assumes "step ob hook ev p = Inr (out, p1)" "\<not> isExtract ev"
  shows "edata ` val ` set (pending p1) \<subseteq> edata ` val ` set (pending p) \<union> set (reclaimed [ev])"
proof (cases ev)
  case (EvGet v)
  then show ?thesis using assms by (auto simp: step_def Get_def split: sum.splits dest!: get_pending)
next
  case (EvMark v)
  then show ?thesis using assms by (auto simp: step_def split: sum.splits dest!: Mark_pending)
next
  case (EvValue r)
  then show ?thesis using assms by (auto simp: step_def Value_pending split: if_splits)
next
  case (EvGC a)
  then have "runFinalizer ob a p = Inr p1"
    using assms by (auto simp: step_def split: sum.splits)
  from runFinalizer_pending [OF this] consider "pending p1 = pending p"
    | t n where "pending p1 = pending p @ [\<lparr>val = \<lparr>etype = t, edata = a\<rparr>, order = n\<rparr>]"
    by blast
  then show ?thesis
  proof cases
    case 1
    then show ?thesis by auto
  next
    case 2
    then show ?thesis using EvGC by simp
  qed
next
  case EvExtractDead
  then show ?thesis using assms by simp
next
  case (EvExtractAll ks)
  then show ?thesis using assms by simp
qed

lemma reclaimed_Cons: "set (reclaimed (ev # evs)) = set (reclaimed [ev]) \<union> set (reclaimed evs)"
  by (cases ev) auto

lemma run_pending_arrivals:
  "\<forall>ev \<in> set evs. \<not> isExtract ev \<Longrightarrow> run ob hook evs p = Inr (outs, p2) \<Longrightarrow>
   edata ` val ` set (pending p2) \<subseteq> edata ` val ` set (pending p) \<union> set (reclaimed evs)"
proof (induction evs arbitrary: p outs)
  case Nil
  then show ?case by simp
next
  case (Cons ev evs)
  from Cons.prems(2) obtain out p1 outs1 where
    st: "step ob hook ev p = Inr (out, p1)" and rn: "run ob hook evs p1 = Inr (outs1, p2)"
    by (auto split: sum.splits)
  have a: "edata ` val ` set (pending p1) \<subseteq> edata ` val ` set (pending p) \<union> set (reclaimed [ev])"
    using step_pending_arrival [OF st] Cons.prems(1) by simp
  have b: "edata ` val ` set (pending p2) \<subseteq> edata ` val ` set (pending p1) \<union> set (reclaimed evs)"
    using Cons.IH [OF _ rn] Cons.prems(1) by simp
  have "edata ` val ` set (pending p2) \<subseteq>
        (edata ` val ` set (pending p) \<union> set (reclaimed [ev])) \<union> set (reclaimed evs)"
    by (rule subset_trans [OF b Un_mono [OF a subset_refl]])
  then show ?case by (simp only: reclaimed_Cons [of ev evs] Un_assoc)
qed

subsection \<open>Extraction of the pending values\<close>

text \<open>
  Claim C1. \<^verbatim>\<open>ExtractDeadMarked\<close> (the pending extraction of the pool) hands to
  \<^verbatim>\<open>runPrefinalizers\<close>, and with a hook that returns its argument returns, exactly the
  values of the pending queue, ordered by strictly descending mark order (the mark orders
  in the queue being distinct); it leaves the queue empty and the rest of the pool as it
  was; a call repeated at once returns the empty list; and after any events other than
  extractions the next call returns only values that the collector reclaimed during
  these events.
\<close>

theorem ExtractDeadMarked_descending_drains:
  assumes "distinct (map order (pending p))"
  shows "fst (ExtractDeadMarked hook p) =
           (if pending p = [] then [] else hook (vals (sort_Sort (pending p))))
       \<and> fst (ExtractDeadMarked noHook p) = vals (sort_Sort (pending p))
       \<and> mset (sort_Sort (pending p)) = mset (pending p)
       \<and> sorted_wrt (\<lambda>a b. order a > order b) (sort_Sort (pending p))
       \<and> snd (ExtractDeadMarked hook p) = p\<lparr>pending := []\<rparr>
       \<and> ExtractDeadMarked hook (snd (ExtractDeadMarked hook p)) = ([], snd (ExtractDeadMarked hook p))
       \<and> (\<forall>evs outs p2.
            (\<forall>ev \<in> set evs. \<not> isExtract ev) \<and>
            run ob hook evs (snd (ExtractDeadMarked hook p)) = Inr (outs, p2) \<longrightarrow>
            edata ` set (fst (ExtractDeadMarked noHook p2)) \<subseteq> set (reclaimed evs))"
proof -
  have 1: "fst (ExtractDeadMarked hook p) =
           (if pending p = [] then [] else hook (vals (sort_Sort (pending p))))"
    by (simp add: ExtractDeadMarked_def)
  have 2: "fst (ExtractDeadMarked noHook p) = vals (sort_Sort (pending p))"
    by (simp add: ExtractDeadMarked_def noHook_def vals_def)
  have 3: "sorted_wrt (\<lambda>a b. order a > order b) (sort_Sort (pending p))"
    using sort_Sort_strict [OF assms] by simp
  have 4: "snd (ExtractDeadMarked hook p) = p\<lparr>pending := []\<rparr>"
    by (simp add: ExtractDeadMarked_def)
  have 5: "ExtractDeadMarked hook (snd (ExtractDeadMarked hook p)) = ([], snd (ExtractDeadMarked hook p))"
    by (simp add: ExtractDeadMarked_def)
  have 6: "edata ` set (fst (ExtractDeadMarked noHook p2)) \<subseteq> set (reclaimed evs)"
    if "\<forall>ev \<in> set evs. \<not> isExtract ev"
      and "run ob hook evs (snd (ExtractDeadMarked hook p)) = Inr (outs, p2)" for evs outs p2
  proof -
    have "edata ` val ` set (pending p2) \<subseteq> set (reclaimed evs)"
      using run_pending_arrivals [OF that] by (simp add: 4)
    moreover have "set (fst (ExtractDeadMarked noHook p2)) = val ` set (pending p2)"
      by (simp add: ExtractDeadMarked_def noHook_def vals_def set_sort_Sort)
    ultimately show ?thesis by simp
  qed
  show ?thesis using 1 2 3 4 5 6 by (simp add: mset_sort_Sort)
qed

theorem ExtractDeadMarked_descending_drains_witness:
  "distinct (map order (pending exPool))
   \<and> fst (ExtractDeadMarked noHook exPool) = [exB, exA]
   \<and> sorted_wrt (\<lambda>a b. order a > order b) (sort_Sort (pending exPool))
   \<and> pending (snd (ExtractDeadMarked noHook exPool)) = []
   \<and> fst (ExtractDeadMarked noHook (snd (ExtractDeadMarked noHook exPool))) = []
   \<and> fst (ExtractDeadMarked noHook (snd (projr (run exampleObj noHook [EvMark exA, EvGC 64]
        (snd (ExtractDeadMarked noHook exPool)))))) = [exA]
   \<and> reclaimed [EvMark exA, EvGC 64] = [64]"
  using ExtractDeadMarked_descending_drains [where p = exPool and hook = noHook and ob = exampleObj]
  by (simp add: exPool_eval pool_defs example_defs)

subsection \<open>Get\<close>

lemma get_existing: "weakrefs p (edata v) = Some r \<Longrightarrow> get ob v p = Inr (r, p)"
  by (simp add: get_def getwiface_def wiface_id_def)

lemma get_registers: "get ob v p = Inr (r, p1) \<Longrightarrow> weakrefs p1 (edata v) = Some r"
  by (auto simp: get_def getwiface_def wiface_id_def Let_def split: option.splits sum.splits)

lemma eface_eta [simp]: "\<lparr>etype = etype v, edata = edata v\<rparr> = (v :: eface)"
  by (cases v) simp

lemma wiface_roundtrip: "wiface_iface (getwiface v) = v"
  by (simp add: wiface_iface_def getwiface_def)

lemma get_returns:
  assumes "accepts (ob v)" "weakrefs p (edata v) = None \<Longrightarrow> finalizers p (edata v) = None"
  shows "\<exists>r p1. get ob v p = Inr (r, p1)"
  using assms
  by (cases "weakrefs p (edata v)"; cases "ob v")
     (simp_all add: get_def getwiface_def wiface_id_def SetFinalizer_def Let_def)

lemma get_aborts:
  "ob v = Rejected c \<Longrightarrow> weakrefs p (edata v) = None \<Longrightarrow> get ob v p = Inl c"
  by (simp add: get_def getwiface_def wiface_id_def SetFinalizer_def)

lemma get_fresh:
  assumes "weakrefs p (edata v) = None" "get ob v p = Inr (r, p1)"
  shows "r = length (heap p)"
    and "heap p1 = heap p @ [\<lparr>w = getwiface v, markOrder = 0, status = wrAlive\<rparr>]"
    and "weakrefs p1 = (weakrefs p)(edata v \<mapsto> r)"
    and "accepts (ob v)"
  using assms
  by (auto simp: get_def getwiface_def wiface_id_def SetFinalizer_def Let_def
           split: sum.splits if_splits object.splits)

lemma Value_fresh:
  assumes "weakrefs p (edata v) = None" "get ob v p = Inr (r, p1)"
  shows "fst (Value r p1) = v"
  using get_fresh(1,2) [OF assms]
  by (simp add: Value_def getwiface_def wiface_iface_def)

text \<open>
  Claim C7. A value with heap identity is one that \<^verbatim>\<open>runtime.SetFinalizer\<close> accepts: for
  such a value (with no finalizer set unless the pool registered it) \<^verbatim>\<open>Get\<close> returns a
  handle, while \<^verbatim>\<open>Get\<close> of a value that is not registered and that the runtime rejects
  aborts the program. Whenever \<^verbatim>\<open>Get\<close> returns a handle, a second \<^verbatim>\<open>Get\<close> of the same value
  returns the same handle and leaves the pool, hence the mark order and status of the
  handle, as it is; \<^verbatim>\<open>Get\<close> of a value that has a handle already does not change the pool
  either.
\<close>

theorem Get_twice_same_handle:
  "(accepts (objectAt v) \<and> (weakrefs p (edata v) = None \<longrightarrow> finalizers p (edata v) = None)
      \<longrightarrow> (\<exists>r p1. Get objectAt v p = Inr (r, p1)))
   \<and> (\<forall>c. objectAt v = Rejected c \<and> weakrefs p (edata v) = None \<longrightarrow> Get objectAt v p = Inl c)
   \<and> (\<forall>r p1. Get objectAt v p = Inr (r, p1) \<longrightarrow>
         Get objectAt v p1 = Inr (r, p1) \<and> weakrefs p1 (edata v) = Some r
         \<and> (weakrefs p (edata v) \<noteq> None \<longrightarrow> p1 = p))"
proof (intro conjI impI allI)
  assume "accepts (objectAt v) \<and> (weakrefs p (edata v) = None \<longrightarrow> finalizers p (edata v) = None)"
  then show "\<exists>r p1. Get objectAt v p = Inr (r, p1)"
    using get_returns [of objectAt v p] by (simp add: Get_def)
next
  fix c assume "objectAt v = Rejected c \<and> weakrefs p (edata v) = None"
  then show "Get objectAt v p = Inl c" by (simp add: Get_def get_aborts)
next
  fix r p1 assume g: "Get objectAt v p = Inr (r, p1)"
  then have reg: "weakrefs p1 (edata v) = Some r"
    by (simp add: Get_def get_registers)
  then show "Get objectAt v p1 = Inr (r, p1)"
    by (simp add: Get_def get_existing)
  show "weakrefs p1 (edata v) = Some r" by (rule reg)
  assume "weakrefs p (edata v) \<noteq> None"
  then obtain r0 where "weakrefs p (edata v) = Some r0" by auto
  from get_existing [OF this, of objectAt] g show "p1 = p" by (simp add: Get_def)
qed

theorem Get_twice_same_handle_witness:
  "accepts (exampleObj exA) \<and> weakrefs NewUnsafePool (edata exA) = None
   \<and> finalizers NewUnsafePool (edata exA) = None
   \<and> fst (projr (Get exampleObj exA NewUnsafePool)) = 0
   \<and> Get exampleObj exA (snd (projr (Get exampleObj exA NewUnsafePool)))
       = Inr (0, snd (projr (Get exampleObj exA NewUnsafePool)))
   \<and> exampleObj exNil = Rejected NotInHeap \<and> weakrefs NewUnsafePool (edata exNil) = None
   \<and> Get exampleObj exNil NewUnsafePool = Inl NotInHeap
   \<and> exampleObj exInner = Rejected NotAtBlockStart
   \<and> weakrefs NewUnsafePool (edata exInner) = None
   \<and> Get exampleObj exInner NewUnsafePool = Inl NotAtBlockStart"
  using Get_twice_same_handle [of exampleObj exA NewUnsafePool]
    Get_twice_same_handle [of exampleObj exNil NewUnsafePool]
    Get_twice_same_handle [of exampleObj exInner NewUnsafePool]
  by (simp add: pool_defs example_defs)

text \<open>
  Claim C10. The key of the registry is the data word of the interface value alone. So
  when two values have the same data word, \<^verbatim>\<open>Get\<close> of the second returns the handle that
  \<^verbatim>\<open>Get\<close> of the first returned, whatever their type words, and \<^verbatim>\<open>Value\<close> of that handle
  is the value registered first, with its own dynamic type.
\<close>

theorem registry_keyed_by_data_word:
  "wiface_id (getwiface v1) = edata v1
   \<and> (\<forall>r p1. edata v1 = edata v2 \<and> Get objectAt v1 p = Inr (r, p1) \<longrightarrow>
         Get objectAt v2 p1 = Inr (r, p1)
         \<and> (weakrefs p (edata v1) = None \<longrightarrow> fst (Value r p1) = v1))"
proof (intro conjI impI allI)
  show "wiface_id (getwiface v1) = edata v1"
    by (simp add: wiface_id_def getwiface_def)
next
  fix r p1 assume a: "edata v1 = edata v2 \<and> Get objectAt v1 p = Inr (r, p1)"
  then have "weakrefs p1 (edata v2) = Some r"
    using get_registers [of objectAt v1 p r p1] by (simp add: Get_def)
  then show "Get objectAt v2 p1 = Inr (r, p1)"
    by (simp add: Get_def get_existing)
  assume "weakrefs p (edata v1) = None"
  then show "fst (Value r p1) = v1"
    using a Value_fresh [of p v1 objectAt r p1] by (simp add: Get_def)
qed

theorem registry_keyed_by_data_word_witness:
  "edata exA = edata exA' \<and> etype exA \<noteq> etype exA'
   \<and> Get exampleObj exA NewUnsafePool = Inr (0, snd (projr (Get exampleObj exA NewUnsafePool)))
   \<and> Get exampleObj exA' (snd (projr (Get exampleObj exA NewUnsafePool)))
       = Inr (0, snd (projr (Get exampleObj exA NewUnsafePool)))
   \<and> fst (Value 0 (snd (projr (Get exampleObj exA NewUnsafePool)))) = exA"
  using registry_keyed_by_data_word [of exA exA' exampleObj NewUnsafePool]
  by (simp add: pool_defs example_defs)

text \<open>
  Claim C8, as stated, fails: \<open>exA\<close> and \<open>exA'\<close> are two pointers of different types to
  the same address. After \<^verbatim>\<open>Get(exA)\<close>, \<^verbatim>\<open>Get(exA')\<close> returns the handle made for \<open>exA\<close>
  and its \<^verbatim>\<open>Value()\<close> is \<open>exA\<close>, which is not \<open>exA'\<close>.
\<close>

theorem Get_Value_other_type_counterexample:
  "exampleObj exA = Tracked \<and> exampleObj exA' = Tracked
   \<and> Get exampleObj exA' (snd (projr (Get exampleObj exA NewUnsafePool)))
       = Inr (0, snd (projr (Get exampleObj exA NewUnsafePool)))
   \<and> fst (Value 0 (snd (projr (Get exampleObj exA NewUnsafePool)))) = exA
   \<and> exA \<noteq> exA'"
  by (simp add: pool_defs example_defs)

text \<open>
  Claim C8, amended. \<^verbatim>\<open>Get(V).Value()\<close>, called right after \<^verbatim>\<open>Get\<close>, returns \<open>V\<close> itself
  when \<^verbatim>\<open>Get\<close> made the handle, and when the handle registered under the data word of
  \<open>V\<close> is alive or resurrected (as every registered handle is) and was made for \<open>V\<close> with
  its type word.
\<close>

theorem Get_Value_roundtrip:
  assumes "Get objectAt v p = Inr (r, p1)"
    and "\<And>r0. weakrefs p (edata v) = Some r0 \<Longrightarrow>
           status (heap p ! r0) \<noteq> wrDead \<and> w (heap p ! r0) = getwiface v"
  shows "fst (Value r p1) = v"
proof (cases "weakrefs p (edata v)")
  case None
  then show ?thesis using assms(1) Value_fresh by (simp add: Get_def)
next
  case (Some r0)
  then have "r = r0" "p1 = p" using assms(1) get_existing [OF Some, of objectAt] by (simp_all add: Get_def)
  then show ?thesis using assms(2) [OF Some]
    by (simp add: Value_def getwiface_def wiface_iface_def)
qed

theorem Get_Value_roundtrip_witness:
  "Get exampleObj exA (snd (projr (Get exampleObj exA NewUnsafePool)))
     = Inr (0, snd (projr (Get exampleObj exA NewUnsafePool)))
   \<and> weakrefs (snd (projr (Get exampleObj exA NewUnsafePool))) (edata exA) = Some 0
   \<and> status (heap (snd (projr (Get exampleObj exA NewUnsafePool))) ! 0) \<noteq> wrDead
   \<and> w (heap (snd (projr (Get exampleObj exA NewUnsafePool))) ! 0) = getwiface exA
   \<and> fst (Value 0 (snd (projr (Get exampleObj exA NewUnsafePool)))) = exA"
  using Get_Value_roundtrip [of exampleObj exA "snd (projr (Get exampleObj exA NewUnsafePool))" 0
      "snd (projr (Get exampleObj exA NewUnsafePool))"]
  by (simp add: pool_defs example_defs)

subsection \<open>Mark\<close>

lemma int_incr_neq: "int_incr n \<noteq> n"
  by (simp add: int_incr_def maxInt_def minInt_def)

lemma get_lastMarkOrder: "get ob v p = Inr (r, p1) \<Longrightarrow> lastMarkOrder p1 = lastMarkOrder p"
  by (auto simp: get_def Let_def split: option.splits sum.splits)

lemma Mark_lastMarkOrder: "Mark ob v p = Inr p1 \<Longrightarrow> lastMarkOrder p1 = int_incr (lastMarkOrder p)"
  by (auto simp: Mark_def Let_def split: sum.splits dest!: get_lastMarkOrder)

lemma Mark_changes_pool: "Mark ob v p \<noteq> Inr p"
  using Mark_lastMarkOrder [of ob v p p] int_incr_neq [of "lastMarkOrder p"] by auto

lemma Mark_aborts:
  "ob v = Rejected c \<Longrightarrow> weakrefs p (edata v) = None \<Longrightarrow> Mark ob v p = Inl c"
  by (simp add: Mark_def get_def getwiface_def wiface_id_def SetFinalizer_def)

text \<open>
  Claim C9 against the code. \<^verbatim>\<open>Mark\<close> makes no difference between values: it increments
  the counter and calls \<^verbatim>\<open>get\<close>, which calls \<^verbatim>\<open>runtime.SetFinalizer\<close> on a value that is not
  registered. For the boxed integer \<open>exInt\<close>, which is not a pointer, the Go runtime aborts
  the program. (By \<open>Mark_changes_pool\<close> no call of \<^verbatim>\<open>Mark\<close> leaves the pool as it was.)
\<close>

theorem Mark_boxed_integer_aborts:
  "Mark exampleObj exInt NewUnsafePool = Inl NotPointer"
  by (simp add: pool_defs example_defs)

subsection \<open>The reclamation callback\<close>

lemma exMarked_eval:
  "exMarked = \<lparr>weakrefs = [64 \<mapsto> 0], pending = [], lastMarkOrder = 1,
      heap = [\<lparr>w = (16, 64), markOrder = 1, status = wrAlive\<rparr>], finalizers = [64 \<mapsto> 16]\<rparr>"
  by (simp add: exMarked_def pool_defs example_defs)

lemma addPendingGC_resurrected:
  assumes "weakrefs p (edata v) = Some r" "status (heap p ! r) = wrResurrected"
    "ob v = Tracked" "finalizers p (edata v) = None"
  shows "addPendingGC ob v p =
           Inr (p\<lparr>heap := (heap p)[r := (heap p ! r)\<lparr>status := wrAlive\<rparr>],
                  finalizers := (finalizers p)(edata v \<mapsto> etype v)\<rparr>)"
  using assms by (simp add: addPendingGC_def getwiface_def wiface_id_def SetFinalizer_def)

lemma addPendingGC_dies:
  assumes "weakrefs p (edata v) = Some r" "status (heap p ! r) \<noteq> wrResurrected" "r < length (heap p)"
  shows "addPendingGC ob v p =
           Inr (p\<lparr>heap := (heap p)[r := (heap p ! r)\<lparr>status := wrDead\<rparr>],
                  pending := pending p @
                    (if 0 < markOrder (heap p ! r) then [\<lparr>val = v, order = markOrder (heap p ! r)\<rparr>] else []),
                  weakrefs := (weakrefs p)(edata v := None)\<rparr>)"
  using assms by (simp add: addPendingGC_def getwiface_def wiface_id_def Let_def)

lemma addPendingGC_spurious:
  "weakrefs p (edata v) = None \<Longrightarrow> addPendingGC ob v p = Inr p"
  by (simp add: addPendingGC_def getwiface_def wiface_id_def)

lemma Value_resurrects:
  "r < length (heap p) \<Longrightarrow> status (heap p ! r) \<noteq> wrDead \<Longrightarrow>
   Value r p = (wiface_iface (w (heap p ! r)),
                p\<lparr>heap := (heap p)[r := (heap p ! r)\<lparr>status := wrResurrected\<rparr>]\<rparr>)"
  by (simp add: Value_def)

lemma resurrected_gets_another_cycle:
  assumes "weakrefs p a = Some r" "r < length (heap p)" "status (heap p ! r) \<noteq> wrDead"
    and "finalizers p a = Some t" "objectAt \<lparr>etype = t, edata = a\<rparr> = Tracked"
  shows "status (heap (snd (Value r p)) ! r) = wrResurrected
       \<and> addPendingGC objectAt \<lparr>etype = t, edata = a\<rparr> ((snd (Value r p))\<lparr>finalizers := (finalizers p)(a := None)\<rparr>)
           = Inr (p\<lparr>heap := (heap p)[r := (heap p ! r)\<lparr>status := wrAlive\<rparr>]\<rparr>)
       \<and> runFinalizer objectAt a (snd (Value r p))
           = Inr (p\<lparr>heap := (heap p)[r := (heap p ! r)\<lparr>status := wrAlive\<rparr>]\<rparr>)
       \<and> runFinalizer objectAt a (p\<lparr>heap := (heap p)[r := (heap p ! r)\<lparr>status := wrAlive\<rparr>]\<rparr>)
           = Inr (p\<lparr>heap := (heap p)[r := (heap p ! r)\<lparr>status := wrDead\<rparr>],
                    pending := pending p @
                      (if 0 < markOrder (heap p ! r)
                       then [\<lparr>val = \<lparr>etype = t, edata = a\<rparr>, order = markOrder (heap p ! r)\<rparr>] else []),
                    weakrefs := (weakrefs p)(a := None),
                    finalizers := (finalizers p)(a := None)\<rparr>)"
proof -
  let ?q = "p\<lparr>heap := (heap p)[r := (heap p ! r)\<lparr>status := wrResurrected\<rparr>]\<rparr>"
  let ?alive = "p\<lparr>heap := (heap p)[r := (heap p ! r)\<lparr>status := wrAlive\<rparr>]\<rparr>"
  have v: "snd (Value r p) = ?q"
    using assms(2,3) by (simp add: Value_resurrects)
  have 1: "status (heap (snd (Value r p)) ! r) = wrResurrected"
    using assms(2) by (simp add: v)
  have fs: "(finalizers p)(a \<mapsto> t) = finalizers p"
    using assms(4) by (simp add: fun_upd_idem)
  have 2: "addPendingGC objectAt \<lparr>etype = t, edata = a\<rparr> (?q\<lparr>finalizers := (finalizers p)(a := None)\<rparr>)
           = Inr ?alive"
    using assms(1,2,5) fs
    by (simp add: addPendingGC_def getwiface_def wiface_id_def SetFinalizer_def)
  have 3: "runFinalizer objectAt a ?q = Inr ?alive"
    using 2 assms(4) by (simp add: runFinalizer_def)
  have 4: "runFinalizer objectAt a ?alive
           = Inr (p\<lparr>heap := (heap p)[r := (heap p ! r)\<lparr>status := wrDead\<rparr>],
                    pending := pending p @
                      (if 0 < markOrder (heap p ! r)
                       then [\<lparr>val = \<lparr>etype = t, edata = a\<rparr>, order = markOrder (heap p ! r)\<rparr>] else []),
                    weakrefs := (weakrefs p)(a := None),
                    finalizers := (finalizers p)(a := None)\<rparr>)"
    using assms(1,2,4)
    by (simp add: runFinalizer_def addPendingGC_def getwiface_def wiface_id_def Let_def)
  show ?thesis using 1 2 3 4 by (simp only: v simp_thms)
qed

text \<open>
  Claim C2. When the handle registered for the value has status \<open>wrResurrected\<close>, the
  callback sets the status to \<open>wrAlive\<close>, sets the finalizer of the value again and changes
  neither the pending queue nor the registry; the value is one that the runtime tracks,
  as every value is whose finalizer runs. So for a registered handle that is not
  dead: \<^verbatim>\<open>Value\<close> makes it resurrected; the next run of the finalizer leaves the pool as it
  was before \<^verbatim>\<open>Value\<close>, the status alive, the finalizer set and the queue unchanged; and a
  further run of the finalizer, with no \<^verbatim>\<open>Value\<close> in between, marks the handle dead,
  removes it from the registry and enqueues the value if it is marked.
\<close>

theorem resurrected_callback_rearms:
  "(weakrefs q (edata v) = Some r \<and> status (heap q ! r) = wrResurrected \<and>
    objectAt v = Tracked \<and> finalizers q (edata v) = None \<longrightarrow>
      addPendingGC objectAt v q =
        Inr (q\<lparr>heap := (heap q)[r := (heap q ! r)\<lparr>status := wrAlive\<rparr>],
               finalizers := (finalizers q)(edata v \<mapsto> etype v)\<rparr>))
   \<and> (weakrefs p a = Some r' \<and> r' < length (heap p) \<and> status (heap p ! r') \<noteq> wrDead \<and>
      finalizers p a = Some t \<and> objectAt \<lparr>etype = t, edata = a\<rparr> = Tracked \<longrightarrow>
        status (heap (snd (Value r' p)) ! r') = wrResurrected
      \<and> runFinalizer objectAt a (snd (Value r' p))
           = Inr (p\<lparr>heap := (heap p)[r' := (heap p ! r')\<lparr>status := wrAlive\<rparr>]\<rparr>)
      \<and> runFinalizer objectAt a (p\<lparr>heap := (heap p)[r' := (heap p ! r')\<lparr>status := wrAlive\<rparr>]\<rparr>)
           = Inr (p\<lparr>heap := (heap p)[r' := (heap p ! r')\<lparr>status := wrDead\<rparr>],
                    pending := pending p @
                      (if 0 < markOrder (heap p ! r')
                       then [\<lparr>val = \<lparr>etype = t, edata = a\<rparr>, order = markOrder (heap p ! r')\<rparr>]
                       else []),
                    weakrefs := (weakrefs p)(a := None),
                    finalizers := (finalizers p)(a := None)\<rparr>))"
  using addPendingGC_resurrected [of q v r objectAt]
    resurrected_gets_another_cycle [of p a r' t objectAt]
  by simp

theorem resurrected_callback_rearms_witness:
  "weakrefs exResurrected (edata exA) = Some 0
   \<and> status (heap exResurrected ! 0) = wrResurrected
   \<and> exampleObj exA = Tracked \<and> finalizers exResurrected (edata exA) = None
   \<and> pending (projr (addPendingGC exampleObj exA exResurrected)) = []
   \<and> status (heap (projr (addPendingGC exampleObj exA exResurrected)) ! 0) = wrAlive
   \<and> finalizers (projr (addPendingGC exampleObj exA exResurrected)) 64 = Some 16
   \<and> weakrefs exMarked 64 = Some 0 \<and> 0 < length (heap exMarked)
   \<and> status (heap exMarked ! 0) \<noteq> wrDead \<and> finalizers exMarked 64 = Some 16
   \<and> exampleObj \<lparr>etype = 16, edata = 64\<rparr> = Tracked
   \<and> fst (Value 0 exMarked) = exA
   \<and> status (heap (snd (Value 0 exMarked)) ! 0) = wrResurrected
   \<and> pending (projr (runFinalizer exampleObj 64 (snd (Value 0 exMarked)))) = []
   \<and> pending (projr (runFinalizer exampleObj 64
        (projr (runFinalizer exampleObj 64 (snd (Value 0 exMarked))))))
       = [\<lparr>val = exA, order = 1\<rparr>]"
  using resurrected_callback_rearms [of exResurrected exA 0 exampleObj exMarked 64 0 16]
  by (simp add: exResurrected_def exMarked_eval pool_defs example_defs)

subsection \<open>Well-formed pools are preserved\<close>

lemma pool_inv_NewUnsafePool: "pool_inv ob NewUnsafePool"
  by (simp add: pool_inv_def registry_ok_def finalizers_ok_def orders_ok_def NewUnsafePool_def)

lemma get_cases:
  assumes "get ob v p = Inr (r, p1)"
  obtains (existing) "weakrefs p (edata v) = Some r" "p1 = p"
  | (fresh) "weakrefs p (edata v) = None" "accepts (ob v)"
      "ob v = Tracked \<longrightarrow> finalizers p (edata v) = None"
      "r = length (heap p)"
      "p1 = p\<lparr>weakrefs := (weakrefs p)(edata v \<mapsto> length (heap p)),
               heap := heap p @ [\<lparr>w = getwiface v, markOrder = 0, status = wrAlive\<rparr>],
               finalizers := (if ob v = Tracked then (finalizers p)(edata v \<mapsto> etype v)
                              else finalizers p)\<rparr>"
proof (cases "weakrefs p (edata v)")
  case (Some r0)
  then have "r = r0" "p1 = p" using assms by (simp_all add: get_def getwiface_def wiface_id_def)
  then show ?thesis using Some existing by simp
next
  case None
  show ?thesis
  proof (cases "ob v")
    case (Rejected c)
    then show ?thesis using assms None
      by (simp add: get_def getwiface_def wiface_id_def SetFinalizer_def)
  next
    case Untracked
    have "r = length (heap p)"
      and "p1 = p\<lparr>weakrefs := (weakrefs p)(edata v \<mapsto> length (heap p)),
               heap := heap p @ [\<lparr>w = getwiface v, markOrder = 0, status = wrAlive\<rparr>],
               finalizers := finalizers p\<rparr>"
      using assms None Untracked
      by (auto simp: get_def getwiface_def wiface_id_def SetFinalizer_def Let_def)
    then show ?thesis using None Untracked by (intro fresh) simp_all
  next
    case Tracked
    have fin: "finalizers p (edata v) = None"
      using assms None Tracked
      by (simp add: get_def getwiface_def wiface_id_def SetFinalizer_def Let_def split: if_splits)
    have "r = length (heap p)"
      and "p1 = p\<lparr>weakrefs := (weakrefs p)(edata v \<mapsto> length (heap p)),
               heap := heap p @ [\<lparr>w = getwiface v, markOrder = 0, status = wrAlive\<rparr>],
               finalizers := (finalizers p)(edata v \<mapsto> etype v)\<rparr>"
      using assms None Tracked fin
      by (auto simp: get_def getwiface_def wiface_id_def SetFinalizer_def Let_def)
    then show ?thesis using None Tracked fin by (intro fresh) simp_all
  qed
qed

lemma registry_ok_get:
  assumes "registry_ok ob p" "get ob v p = Inr (r, p1)"
  shows "registry_ok ob p1"
  using assms(2)
proof (cases rule: get_cases)
  case existing
  then show ?thesis using assms(1) by simp
next
  case fresh
  show ?thesis
    unfolding registry_ok_def
  proof (intro conjI allI impI)
    show "finite (dom (weakrefs p1))" using assms(1) fresh(5) by (simp add: registry_ok_def)
  next
    fix a r' assume a: "weakrefs p1 a = Some r'"
    show "r' < length (heap p1)" using a assms(1) fresh
      by (auto simp: registry_ok_def split: if_splits intro: less_SucI)
    show "wiface_id (w (heap p1 ! r')) = a" using a assms(1) fresh
      by (auto simp: registry_ok_def nth_append getwiface_def wiface_id_def split: if_splits)
    show "accepts (ob (wiface_iface (w (heap p1 ! r'))))" using a assms(1) fresh
      by (auto simp: registry_ok_def nth_append wiface_roundtrip split: if_splits)
    show "status (heap p1 ! r') \<noteq> wrDead" using a assms(1) fresh
      by (auto simp: registry_ok_def nth_append split: if_splits)
  qed
qed

lemma finalizers_ok_get:
  assumes "finalizers_ok ob p" "get ob v p = Inr (r, p1)"
  shows "finalizers_ok ob p1"
  using assms(2)
proof (cases rule: get_cases)
  case existing
  then show ?thesis using assms(1) by simp
next
  case fresh
  then show ?thesis using assms(1) by (auto simp: finalizers_ok_def split: if_splits)
qed

lemma orders_ok_get:
  assumes "registry_ok ob p" "orders_ok p" "get ob v p = Inr (r, p1)"
  shows "orders_ok p1"
  using assms(3)
proof (cases rule: get_cases)
  case existing
  then show ?thesis using assms(2) by simp
next
  case fresh
  have old: "\<And>a r'. weakrefs p a = Some r' \<Longrightarrow> r' < length (heap p)"
    using assms(1) by (simp add: registry_ok_def)
  have nth: "\<And>a r'. weakrefs p a = Some r' \<Longrightarrow> heap p1 ! r' = heap p ! r'"
    using old fresh(5) by (simp add: nth_append)
  have new: "heap p1 ! length (heap p) = \<lparr>w = getwiface v, markOrder = 0, status = wrAlive\<rparr>"
    using fresh(5) by simp
  have reg: "\<And>a r'. weakrefs p1 a = Some r' \<Longrightarrow>
      (a = edata v \<and> r' = length (heap p)) \<or> (a \<noteq> edata v \<and> weakrefs p a = Some r')"
    using fresh(5) by (auto split: if_splits)
  have pl: "pending p1 = pending p" "lastMarkOrder p1 = lastMarkOrder p"
    using fresh(5) by simp_all
  show ?thesis
    unfolding orders_ok_def pl
  proof (intro conjI allI impI ballI)
    show "0 \<le> lastMarkOrder p" using assms(2) by (simp add: orders_ok_def)
    show "distinct (map order (pending p))" using assms(2) by (simp add: orders_ok_def)
  next
    fix ov assume "ov \<in> set (pending p)"
    then show "0 < order ov" "order ov \<le> lastMarkOrder p"
      using assms(2) by (simp_all add: orders_ok_def)
  next
    fix a r' assume a: "weakrefs p1 a = Some r'"
    from reg [OF a] show "markOrder (heap p1 ! r') \<le> lastMarkOrder p"
      using assms(2) new nth by (auto simp: orders_ok_def)
    assume "0 < markOrder (heap p1 ! r')"
    with reg [OF a] show "markOrder (heap p1 ! r') \<notin> order ` set (pending p)"
      using assms(2) new nth unfolding orders_ok_def by (metis less_irrefl weakRef.select_convs(2))
  next
    fix a b ra rb
    assume h: "weakrefs p1 a = Some ra \<and> weakrefs p1 b = Some rb \<and> a \<noteq> b \<and>
         0 < markOrder (heap p1 ! ra)"
    then have ra: "a \<noteq> edata v" "weakrefs p a = Some ra" "heap p1 ! ra = heap p ! ra"
      using reg [of a ra] new nth by auto
    show "markOrder (heap p1 ! ra) \<noteq> markOrder (heap p1 ! rb)"
    proof (cases "b = edata v")
      case True
      then have "heap p1 ! rb = \<lparr>w = getwiface v, markOrder = 0, status = wrAlive\<rparr>"
        using h reg [of b rb] new by auto
      then show ?thesis using h by simp
    next
      case False
      then have "weakrefs p b = Some rb" "heap p1 ! rb = heap p ! rb"
        using h reg [of b rb] nth by auto
      then show ?thesis using assms(2) h ra unfolding orders_ok_def by metis
    qed
  qed
qed

lemma pool_inv_get:
  "pool_inv ob p \<Longrightarrow> get ob v p = Inr (r, p1) \<Longrightarrow> pool_inv ob p1"
  unfolding pool_inv_def using registry_ok_get finalizers_ok_get orders_ok_get by blast

lemma orders_okD:
  assumes "orders_ok p"
  shows "0 \<le> lastMarkOrder p"
    and "\<And>ov. ov \<in> set (pending p) \<Longrightarrow> 0 < order ov \<and> order ov \<le> lastMarkOrder p"
    and "distinct (map order (pending p))"
    and "\<And>a r. weakrefs p a = Some r \<Longrightarrow> markOrder (heap p ! r) \<le> lastMarkOrder p"
    and "\<And>a r. weakrefs p a = Some r \<Longrightarrow> 0 < markOrder (heap p ! r) \<Longrightarrow>
           markOrder (heap p ! r) \<notin> order ` set (pending p)"
    and "\<And>a b ra rb. weakrefs p a = Some ra \<Longrightarrow> weakrefs p b = Some rb \<Longrightarrow> a \<noteq> b \<Longrightarrow>
           0 < markOrder (heap p ! ra) \<Longrightarrow> markOrder (heap p ! ra) \<noteq> markOrder (heap p ! rb)"
  using assms unfolding orders_ok_def by blast+

lemma orders_okI:
  assumes "0 \<le> lastMarkOrder p"
    and "\<And>ov. ov \<in> set (pending p) \<Longrightarrow> 0 < order ov \<and> order ov \<le> lastMarkOrder p"
    and "distinct (map order (pending p))"
    and "\<And>a r. weakrefs p a = Some r \<Longrightarrow> markOrder (heap p ! r) \<le> lastMarkOrder p"
    and "\<And>a r. weakrefs p a = Some r \<Longrightarrow> 0 < markOrder (heap p ! r) \<Longrightarrow>
           markOrder (heap p ! r) \<notin> order ` set (pending p)"
    and "\<And>a b ra rb. weakrefs p a = Some ra \<Longrightarrow> weakrefs p b = Some rb \<Longrightarrow> a \<noteq> b \<Longrightarrow>
           0 < markOrder (heap p ! ra) \<Longrightarrow> markOrder (heap p ! ra) \<noteq> markOrder (heap p ! rb)"
  shows "orders_ok p"
  unfolding orders_ok_def using assms by blast

lemma get_lastMarkOrder_update:
  "get ob v (p\<lparr>lastMarkOrder := n\<rparr>) =
     (case get ob v p of Inl e \<Rightarrow> Inl e | Inr (r, p1) \<Rightarrow> Inr (r, p1\<lparr>lastMarkOrder := n\<rparr>))"
  by (simp add: get_def Let_def split: option.splits sum.splits)

lemma Mark_alt:
  "Mark ob v p =
     (case get ob v p of
        Inl e \<Rightarrow> Inl e
      | Inr (r, p1) \<Rightarrow>
          Inr (p1\<lparr>lastMarkOrder := int_incr (lastMarkOrder p),
                  heap := (heap p1)[r := (heap p1 ! r)\<lparr>markOrder := int_incr (lastMarkOrder p)\<rparr>]\<rparr>))"
  by (simp add: Mark_def get_lastMarkOrder_update split: sum.splits)

lemma nth_update_any: "xs[i := x] ! j = (if i = j \<and> i < length xs then x else xs ! j)"
  by (cases "i < length xs") (auto simp: nth_list_update list_update_beyond)

lemma orders_ok_cong:
  assumes "orders_ok p" "weakrefs q = weakrefs p" "pending q = pending p"
    "lastMarkOrder q = lastMarkOrder p" "\<And>i. markOrder (heap q ! i) = markOrder (heap p ! i)"
  shows "orders_ok q"
  using assms(1) unfolding orders_ok_def assms(2-5) .

lemma registry_ok_heap_update:
  assumes "registry_ok ob q" "w x = w (heap q ! r)" "status x = status (heap q ! r)"
  shows "registry_ok ob (q\<lparr>heap := (heap q)[r := x]\<rparr>)"
  using assms unfolding registry_ok_def
  by (auto simp: nth_update_any)

lemma registry_distinct_refs:
  assumes "registry_ok ob q" "weakrefs q a = Some ra" "weakrefs q b = Some rb" "a \<noteq> b"
  shows "ra \<noteq> rb"
  using assms unfolding registry_ok_def by metis

lemma orders_ok_remark:
  assumes reg: "registry_ok ob q" and ok: "orders_ok q" and a: "weakrefs q a = Some r"
    and big: "lastMarkOrder q < M"
  shows "orders_ok (q\<lparr>lastMarkOrder := M, heap := (heap q)[r := (heap q ! r)\<lparr>markOrder := M\<rparr>]\<rparr>)"
    (is "orders_ok ?q'")
proof -
  have r: "r < length (heap q)" using reg a by (simp add: registry_ok_def)
  have here: "markOrder (heap ?q' ! r) = M" using r by simp
  have other: "\<And>b rb. weakrefs q b = Some rb \<Longrightarrow> b \<noteq> a \<Longrightarrow> heap ?q' ! rb = heap q ! rb"
    using registry_distinct_refs [OF reg _ a] by (auto simp: nth_update_any)
  have same: "\<And>rb. weakrefs q a = Some rb \<Longrightarrow> rb = r" using a by simp
  have pend: "\<And>ov. ov \<in> set (pending q) \<Longrightarrow> 0 < order ov \<and> order ov \<le> lastMarkOrder q"
    using ok by (simp add: orders_ok_def)
  have bound: "\<And>b rb. weakrefs q b = Some rb \<Longrightarrow> markOrder (heap q ! rb) \<le> lastMarkOrder q"
    using ok by (simp add: orders_ok_def)
  have M0: "0 < M" using ok big by (simp add: orders_ok_def)
  show ?thesis
    unfolding orders_ok_def
  proof (intro conjI allI impI ballI)
    show "0 \<le> lastMarkOrder ?q'" using M0 by simp
    show "distinct (map order (pending ?q'))" using ok by (simp add: orders_ok_def)
  next
    fix ov assume "ov \<in> set (pending ?q')"
    then show "0 < order ov" "order ov \<le> lastMarkOrder ?q'"
      using pend [of ov] big by simp_all
  next
    fix b rb assume b: "weakrefs ?q' b = Some rb"
    show "markOrder (heap ?q' ! rb) \<le> lastMarkOrder ?q'"
    proof (cases "b = a")
      case True
      then show ?thesis using b same r by simp
    next
      case False
      then show ?thesis using b other [of b rb] bound [of b rb] big by simp
    qed
    assume pos: "0 < markOrder (heap ?q' ! rb)"
    show "markOrder (heap ?q' ! rb) \<notin> order ` set (pending ?q')"
    proof (cases "b = a")
      case True
      then have "markOrder (heap ?q' ! rb) = M" using b same r by simp
      then show ?thesis using pend big by fastforce
    next
      case False
      then have "heap ?q' ! rb = heap q ! rb" using b other [of b rb] by simp
      then show ?thesis using ok b pos unfolding orders_ok_def by simp
    qed
  next
    fix b c rb rc
    assume h: "weakrefs ?q' b = Some rb \<and> weakrefs ?q' c = Some rc \<and> b \<noteq> c \<and>
       0 < markOrder (heap ?q' ! rb)"
    then have b: "weakrefs q b = Some rb" and c: "weakrefs q c = Some rc" and bc: "b \<noteq> c"
      by simp_all
    consider "b = a" | "c = a" | "b \<noteq> a" "c \<noteq> a" by blast
    then show "markOrder (heap ?q' ! rb) \<noteq> markOrder (heap ?q' ! rc)"
    proof cases
      case 1
      then have "markOrder (heap ?q' ! rb) = M" using b same r by simp
      moreover have "markOrder (heap ?q' ! rc) \<le> lastMarkOrder q"
        using 1 bc c other [of c rc] bound [of c rc] by simp
      ultimately show ?thesis using big by simp
    next
      case 2
      then have "markOrder (heap ?q' ! rc) = M" using c same r by simp
      moreover have "markOrder (heap ?q' ! rb) \<le> lastMarkOrder q"
        using 2 bc b other [of b rb] bound [of b rb] by simp
      ultimately show ?thesis using big by simp
    next
      case 3
      then have "heap ?q' ! rb = heap q ! rb" "heap ?q' ! rc = heap q ! rc"
        using b c other by simp_all
      then show ?thesis using ok b c bc h unfolding orders_ok_def by metis
    qed
  qed
qed

lemma int_incr_no_wrap: "n < maxInt \<Longrightarrow> int_incr n = n + 1"
  by (simp add: int_incr_def)

lemma pool_inv_Mark:
  assumes inv: "pool_inv ob p" and m: "Mark ob v p = Inr p1" and nw: "lastMarkOrder p < maxInt"
  shows "pool_inv ob p1"
proof -
  from m obtain r q where g: "get ob v p = Inr (r, q)"
    and p1: "p1 = q\<lparr>lastMarkOrder := lastMarkOrder p + 1,
                    heap := (heap q)[r := (heap q ! r)\<lparr>markOrder := lastMarkOrder p + 1\<rparr>]\<rparr>"
    by (auto simp: Mark_alt int_incr_no_wrap [OF nw] split: sum.splits)
  have q: "pool_inv ob q" using pool_inv_get [OF inv g] .
  have a: "weakrefs q (edata v) = Some r"
    using g by (auto simp: get_def getwiface_def wiface_id_def Let_def split: option.splits sum.splits)
  have l: "lastMarkOrder q = lastMarkOrder p"
    using g by (auto simp: get_def Let_def split: option.splits sum.splits)
  have 1: "registry_ok ob p1"
    using registry_ok_heap_update [of ob q "(heap q ! r)\<lparr>markOrder := lastMarkOrder p + 1\<rparr>" r] q
    by (simp add: p1 pool_inv_def registry_ok_def)
  have 2: "finalizers_ok ob p1" using q by (simp add: p1 pool_inv_def finalizers_ok_def)
  have 3: "orders_ok p1"
    using orders_ok_remark [of ob q "edata v" r "lastMarkOrder p + 1"] q a l
    by (simp add: p1 pool_inv_def)
  show ?thesis using 1 2 3 by (simp add: pool_inv_def)
qed

lemma pool_inv_Value: "pool_inv ob p \<Longrightarrow> pool_inv ob (snd (Value r p))"
proof (cases "status (heap p ! r) = wrDead")
  case True
  then show "pool_inv ob p \<Longrightarrow> ?thesis" by (simp add: Value_def)
next
  case False
  assume inv: "pool_inv ob p"
  let ?q = "p\<lparr>heap := (heap p)[r := (heap p ! r)\<lparr>status := wrResurrected\<rparr>]\<rparr>"
  have "registry_ok ob ?q"
    using inv unfolding pool_inv_def registry_ok_def by (auto simp: nth_update_any)
  moreover have "finalizers_ok ob ?q" using inv by (simp add: pool_inv_def finalizers_ok_def)
  moreover have "orders_ok ?q"
    by (rule orders_ok_cong [of p]) (use inv in \<open>simp_all add: pool_inv_def nth_update_any\<close>)
  ultimately show ?thesis using False by (simp add: Value_def pool_inv_def)
qed

lemma orders_ok_drain:
  assumes "orders_ok p"
  shows "orders_ok (p\<lparr>pending := []\<rparr>)"
proof (rule orders_okI)
  fix a b ra rb
  assume "weakrefs (p\<lparr>pending := []\<rparr>) a = Some ra" "weakrefs (p\<lparr>pending := []\<rparr>) b = Some rb"
    "a \<noteq> b" "0 < markOrder (heap (p\<lparr>pending := []\<rparr>) ! ra)"
  then show "markOrder (heap (p\<lparr>pending := []\<rparr>) ! ra) \<noteq> markOrder (heap (p\<lparr>pending := []\<rparr>) ! rb)"
    using orders_okD(6) [OF assms, of a ra b rb] by simp
qed (use orders_okD(1,4) [OF assms] in simp_all)

lemma pool_inv_drain: "pool_inv ob p \<Longrightarrow> pool_inv ob (p\<lparr>pending := []\<rparr>)"
  unfolding pool_inv_def using orders_ok_drain by (simp add: registry_ok_def finalizers_ok_def)

lemma pool_inv_ExtractDeadMarked: "pool_inv ob p \<Longrightarrow> pool_inv ob (snd (ExtractDeadMarked hook p))"
  by (simp add: ExtractDeadMarked_def pool_inv_drain)

lemma registry_okD:
  assumes "registry_ok ob p" "weakrefs p a = Some r"
  shows "r < length (heap p)" "wiface_id (w (heap p ! r)) = a"
    "accepts (ob (wiface_iface (w (heap p ! r))))"
    "status (heap p ! r) \<noteq> wrDead"
  using assms unfolding registry_ok_def by blast+

lemma pool_inv_addPendingGC:
  assumes inv: "pool_inv ob p" and fin: "finalizers p (edata v) = None"
    and cb: "addPendingGC ob v p = Inr p1"
  shows "pool_inv ob p1"
proof (cases "weakrefs p (edata v)")
  case None
  then show ?thesis using cb inv by (simp add: addPendingGC_spurious)
next
  case (Some r)
  have reg: "registry_ok ob p" and fok: "finalizers_ok ob p" and ook: "orders_ok p"
    using inv by (simp_all add: pool_inv_def)
  have r: "r < length (heap p)" using registry_okD(1) [OF reg Some] .
  have other: "\<And>b rb. weakrefs p b = Some rb \<Longrightarrow> b \<noteq> edata v \<Longrightarrow> rb \<noteq> r"
    using registry_distinct_refs [OF reg _ Some] by blast
  show ?thesis
  proof (cases "status (heap p ! r) = wrResurrected")
    case True
    obtain fs where p1: "p1 = p\<lparr>heap := (heap p)[r := (heap p ! r)\<lparr>status := wrAlive\<rparr>],
                                  finalizers := fs\<rparr>"
      and fs: "fs = finalizers p \<or> (ob v = Tracked \<and> fs = (finalizers p)(edata v \<mapsto> etype v))"
      using cb Some True fin
      by (cases "ob v")
         (auto simp: addPendingGC_def getwiface_def wiface_id_def SetFinalizer_def)
    have "registry_ok ob p1"
      using reg unfolding p1 registry_ok_def by (auto simp: nth_update_any)
    moreover have "finalizers_ok ob p1"
      using fok Some fs unfolding p1 finalizers_ok_def by (auto split: if_splits)
    moreover have "orders_ok p1"
      by (rule orders_ok_cong [OF ook]) (simp_all add: p1 nth_update_any)
    ultimately show ?thesis by (simp add: pool_inv_def)
  next
    case False
    let ?m = "markOrder (heap p ! r)"
    let ?new = "if 0 < ?m then [\<lparr>val = v, order = ?m\<rparr>] else []"
    have p1: "p1 = p\<lparr>heap := (heap p)[r := (heap p ! r)\<lparr>status := wrDead\<rparr>],
                     pending := pending p @ ?new,
                     weakrefs := (weakrefs p)(edata v := None)\<rparr>"
      using cb addPendingGC_dies [of p v r ob] Some False r by simp
    have regs: "\<And>b rb. weakrefs p1 b = Some rb \<Longrightarrow>
        b \<noteq> edata v \<and> weakrefs p b = Some rb \<and> rb \<noteq> r \<and> heap p1 ! rb = heap p ! rb"
      using other by (auto simp: p1 nth_update_any split: if_splits)
    have 1: "registry_ok ob p1"
      unfolding registry_ok_def
    proof (intro conjI allI impI)
      show "finite (dom (weakrefs p1))" using reg by (simp add: p1 registry_ok_def)
    next
      fix b rb assume b: "weakrefs p1 b = Some rb"
      note old = registry_okD [OF reg conjunct1 [OF conjunct2 [OF regs [OF b]]]]
      show "rb < length (heap p1)" using old(1) by (simp add: p1)
      show "wiface_id (w (heap p1 ! rb)) = b" using old(2) regs [OF b] by simp
      show "accepts (ob (wiface_iface (w (heap p1 ! rb))))" using old(3) regs [OF b] by simp
      show "status (heap p1 ! rb) \<noteq> wrDead" using old(4) regs [OF b] by simp
    qed
    have 2: "finalizers_ok ob p1"
      using fok fin unfolding p1 finalizers_ok_def by auto
    have pend: "set (pending p1) = set (pending p) \<union> set ?new" by (simp add: p1)
    have 3: "orders_ok p1"
    proof (rule orders_okI)
      show "0 \<le> lastMarkOrder p1" using orders_okD(1) [OF ook] by (simp add: p1)
    next
      fix ov assume "ov \<in> set (pending p1)"
      then consider "ov \<in> set (pending p)" | "0 < ?m" "ov = \<lparr>val = v, order = ?m\<rparr>"
        unfolding pend by (auto split: if_splits)
      then show "0 < order ov \<and> order ov \<le> lastMarkOrder p1"
      proof cases
        case 1
        then show ?thesis using orders_okD(2) [OF ook] by (simp add: p1)
      next
        case 2
        then show ?thesis using orders_okD(4) [OF ook Some] by (simp add: p1)
      qed
    next
      show "distinct (map order (pending p1))"
        using orders_okD(3) [OF ook] orders_okD(5) [OF ook Some] by (simp add: p1)
    next
      fix b rb assume b: "weakrefs p1 b = Some rb"
      show "markOrder (heap p1 ! rb) \<le> lastMarkOrder p1"
        using regs [OF b] orders_okD(4) [OF ook, of b rb] by (simp add: p1)
      assume pos: "0 < markOrder (heap p1 ! rb)"
      have a: "markOrder (heap p ! rb) \<notin> order ` set (pending p)"
        using regs [OF b] pos orders_okD(5) [OF ook, of b rb] by simp
      have "markOrder (heap p ! rb) \<noteq> ?m"
        using regs [OF b] pos orders_okD(6) [OF ook, of b rb "edata v" r] Some by simp
      then show "markOrder (heap p1 ! rb) \<notin> order ` set (pending p1)"
        using a regs [OF b] unfolding pend by (auto split: if_splits)
    next
      fix b c rb rc
      assume "weakrefs p1 b = Some rb" "weakrefs p1 c = Some rc" "b \<noteq> c"
        "0 < markOrder (heap p1 ! rb)"
      then show "markOrder (heap p1 ! rb) \<noteq> markOrder (heap p1 ! rc)"
        using regs [of b rb] regs [of c rc] orders_okD(6) [OF ook, of b rb c rc] by simp
    qed
    show ?thesis using 1 2 3 by (simp add: pool_inv_def)
  qed
qed

lemma pool_inv_runFinalizer:
  assumes inv: "pool_inv ob p" and cb: "runFinalizer ob a p = Inr p1"
  shows "pool_inv ob p1"
proof (cases "finalizers p a")
  case None
  then show ?thesis using cb inv by (simp add: runFinalizer_def)
next
  case (Some t)
  let ?q = "p\<lparr>finalizers := (finalizers p)(a := None)\<rparr>"
  have "orders_ok ?q" by (rule orders_ok_cong [of p]) (use inv in \<open>simp_all add: pool_inv_def\<close>)
  then have q: "pool_inv ob ?q"
    using inv unfolding pool_inv_def registry_ok_def finalizers_ok_def by auto
  have "addPendingGC ob \<lparr>etype = t, edata = a\<rparr> ?q = Inr p1"
    using cb Some by (simp add: runFinalizer_def)
  from pool_inv_addPendingGC [OF q _ this] show ?thesis by simp
qed

subsection \<open>The loop over the registry\<close>

lemma marksCleared_Nil: "marksCleared [] p p"
  by (simp add: marksCleared_def)

lemma markedEntry_cong:
  assumes "weakrefs q = weakrefs p" "\<And>r. weakrefs p k = Some r \<Longrightarrow> heap q ! r = heap p ! r"
  shows "markedEntry q k = markedEntry p k"
  using assms by (simp add: markedEntry_def split: option.splits)

lemma marksCleared_skip:
  assumes "markedEntry p k = []" "marksCleared ks p p1"
  shows "marksCleared (k # ks) p p1"
proof -
  have "\<And>r. weakrefs p k = Some r \<Longrightarrow> \<not> 0 < markOrder (heap p ! r)"
    using assms(1) by (auto simp: markedEntry_def split: if_splits)
  then show ?thesis using assms unfolding marksCleared_def by auto
qed

lemma rangeWeakrefs_skip:
  "markedEntry p k = [] \<Longrightarrow> rangeWeakrefs ob (k # ks) marked p = rangeWeakrefs ob ks marked p"
  by (auto simp: markedEntry_def split: option.splits if_splits)

lemma rangeWeakrefs_visit:
  assumes reg: "registry_ok ob p" and k: "weakrefs p k = Some r" and pos: "0 < markOrder (heap p ! r)"
  shows "\<exists>fs. rangeWeakrefs ob (k # ks) marked p =
           rangeWeakrefs ob ks (marked @ markedEntry p k)
             (p\<lparr>heap := (heap p)[r := (heap p ! r)\<lparr>markOrder := 0\<rparr>], finalizers := fs\<rparr>)
         \<and> (\<forall>a. fs a = None \<or> fs a = finalizers p a)"
proof (cases "ob (wiface_iface (w (heap p ! r)))")
  case (Rejected c)
  then show ?thesis using registry_okD(3) [OF reg k] by simp
next
  case Untracked
  then have "rangeWeakrefs ob (k # ks) marked p =
           rangeWeakrefs ob ks (marked @ markedEntry p k)
             (p\<lparr>heap := (heap p)[r := (heap p ! r)\<lparr>markOrder := 0\<rparr>],
                finalizers := finalizers p\<rparr>)"
    using k pos by (simp add: markedEntry_def SetFinalizer_def Let_def)
  then show ?thesis by blast
next
  case Tracked
  then have "rangeWeakrefs ob (k # ks) marked p =
           rangeWeakrefs ob ks (marked @ markedEntry p k)
             (p\<lparr>heap := (heap p)[r := (heap p ! r)\<lparr>markOrder := 0\<rparr>],
                finalizers := (finalizers p)(edata (wiface_iface (w (heap p ! r))) := None)\<rparr>)"
    using k pos by (simp add: markedEntry_def SetFinalizer_def Let_def)
  moreover have "\<forall>a. ((finalizers p)(edata (wiface_iface (w (heap p ! r))) := None)) a = None
       \<or> ((finalizers p)(edata (wiface_iface (w (heap p ! r))) := None)) a = finalizers p a"
    by simp
  ultimately show ?thesis by blast
qed

declare rangeWeakrefs.simps(2) [simp del]

lemma rangeWeakrefs_result:
  assumes "registry_ok ob p" "distinct ks"
  shows "\<exists>p1. rangeWeakrefs ob ks marked p = Inr (marked @ concat (map (markedEntry p) ks), p1)
             \<and> marksCleared ks p p1"
  using assms
proof (induction ks arbitrary: marked p)
  case Nil
  then show ?case by (simp add: marksCleared_Nil)
next
  case (Cons k ks)
  show ?case
  proof (cases "markedEntry p k = []")
    case True
    obtain p1 where "rangeWeakrefs ob ks marked p = Inr (marked @ concat (map (markedEntry p) ks), p1)"
      "marksCleared ks p p1"
      using Cons.IH [of p marked] Cons.prems by auto
    then show ?thesis using True marksCleared_skip [OF True]
      by (auto simp: rangeWeakrefs_skip [OF True])
  next
    case False
    then obtain r where k: "weakrefs p k = Some r" and pos: "0 < markOrder (heap p ! r)"
      by (auto simp: markedEntry_def split: option.splits if_splits)
    obtain fs where visit: "rangeWeakrefs ob (k # ks) marked p =
           rangeWeakrefs ob ks (marked @ markedEntry p k)
             (p\<lparr>heap := (heap p)[r := (heap p ! r)\<lparr>markOrder := 0\<rparr>], finalizers := fs\<rparr>)"
      and fs: "\<And>a. fs a = None \<or> fs a = finalizers p a"
      using rangeWeakrefs_visit [OF Cons.prems(1) k pos, of ks marked] by blast
    let ?q = "p\<lparr>heap := (heap p)[r := (heap p ! r)\<lparr>markOrder := 0\<rparr>], finalizers := fs\<rparr>"
    have r: "r < length (heap p)" using registry_okD(1) [OF Cons.prems(1) k] .
    have other: "\<And>b rb. weakrefs p b = Some rb \<Longrightarrow> b \<noteq> k \<Longrightarrow> heap ?q ! rb = heap p ! rb"
      using registry_distinct_refs [OF Cons.prems(1) _ k] by (auto simp: nth_update_any)
    have regq: "registry_ok ob ?q"
      using Cons.prems(1) unfolding registry_ok_def by (auto simp: nth_update_any)
    have ent: "\<And>b. b \<noteq> k \<Longrightarrow> markedEntry ?q b = markedEntry p b"
      by (rule markedEntry_cong) (use other in auto)
    have "\<forall>b \<in> set ks. markedEntry ?q b = markedEntry p b"
    proof
      fix b assume "b \<in> set ks"
      then have "b \<noteq> k" using Cons.prems(2) by auto
      then show "markedEntry ?q b = markedEntry p b" by (rule ent)
    qed
    then have same: "concat (map (markedEntry ?q) ks) = concat (map (markedEntry p) ks)"
      by (simp cong: map_cong)
    obtain p1 where run: "rangeWeakrefs ob ks (marked @ markedEntry p k) ?q
          = Inr ((marked @ markedEntry p k) @ concat (map (markedEntry ?q) ks), p1)"
      and cl: "marksCleared ks ?q p1"
      using Cons.IH [of ?q "marked @ markedEntry p k"] regq Cons.prems(2) by auto
    have 1: "rangeWeakrefs ob (k # ks) marked p
          = Inr (marked @ concat (map (markedEntry p) (k # ks)), p1)"
      using run by (simp add: visit same)
    have 2: "marksCleared (k # ks) p p1"
      unfolding marksCleared_def
    proof (intro conjI allI impI)
      show "weakrefs p1 = weakrefs p" "pending p1 = pending p" "lastMarkOrder p1 = lastMarkOrder p"
        "length (heap p1) = length (heap p)"
        using cl by (simp_all add: marksCleared_def)
    next
      fix i
      show "w (heap p1 ! i) = w (heap p ! i)" "status (heap p1 ! i) = status (heap p ! i)"
        using cl by (simp_all add: marksCleared_def nth_update_any)
    next
      fix a ra assume a: "weakrefs p a = Some ra"
      have q: "markOrder (heap p1 ! ra) =
          (if a \<in> set ks \<and> 0 < markOrder (heap ?q ! ra) then 0 else markOrder (heap ?q ! ra))"
        using cl a by (simp add: marksCleared_def)
      show "markOrder (heap p1 ! ra) =
          (if a \<in> set (k # ks) \<and> 0 < markOrder (heap p ! ra) then 0 else markOrder (heap p ! ra))"
      proof (cases "a = k")
        case True
        then have "ra = r" using a k by simp
        then show ?thesis using q True r pos Cons.prems(2) by simp
      next
        case False
        then show ?thesis using q other [OF a False] by simp
      qed
    next
      fix a
      have "finalizers p1 a = None \<or> finalizers p1 a = fs a"
        using cl by (simp add: marksCleared_def)
      then show "finalizers p1 a = None \<or> finalizers p1 a = finalizers p a"
        using fs [of a] by auto
    qed
    show ?thesis using 1 2 by blast
  qed
qed

lemma rangeWeakrefs_unmarked:
  "\<forall>a r. weakrefs p a = Some r \<longrightarrow> \<not> 0 < markOrder (heap p ! r) \<Longrightarrow>
   rangeWeakrefs ob ks marked p = Inr (marked, p)"
  by (induction ks) (auto simp: rangeWeakrefs.simps(2) split: option.splits)

lemma in_markedEntry:
  "ov \<in> set (markedEntry p k) \<longleftrightarrow>
     (\<exists>r. weakrefs p k = Some r \<and> 0 < markOrder (heap p ! r) \<and>
          ov = \<lparr>val = wiface_iface (w (heap p ! r)), order = markOrder (heap p ! r)\<rparr>)"
  by (cases "weakrefs p k") (auto simp: markedEntry_def)

lemma markedEntry_short: "length (markedEntry p k) \<le> 1"
  by (simp add: markedEntry_def split: option.splits)

lemma distinct_short: "length xs \<le> 1 \<Longrightarrow> distinct xs"
  by (cases xs) auto

lemma in_concat_markedEntry:
  "ov \<in> set (concat (map (markedEntry p) ks)) \<longleftrightarrow> (\<exists>k \<in> set ks. ov \<in> set (markedEntry p k))"
  by auto

lemma markedEntry_orders_distinct:
  assumes ok: "orders_ok p" and d: "distinct ks"
  shows "distinct (map order (concat (map (markedEntry p) ks)))"
  using d
proof (induction ks)
  case Nil
  then show ?case by simp
next
  case (Cons k ks)
  have 1: "distinct (map order (markedEntry p k))"
    using markedEntry_short [of p k] by (intro distinct_short) simp
  have 2: "distinct (map order (concat (map (markedEntry p) ks)))"
    using Cons by simp
  have 3: "order x \<noteq> order y"
    if x: "x \<in> set (markedEntry p k)" and y: "y \<in> set (concat (map (markedEntry p) ks))" for x y
  proof -
    obtain r where r: "weakrefs p k = Some r" "0 < markOrder (heap p ! r)"
      "order x = markOrder (heap p ! r)"
      using x unfolding in_markedEntry by auto
    obtain k' r' where k': "k' \<in> set ks" "weakrefs p k' = Some r'"
      "order y = markOrder (heap p ! r')"
      using y unfolding in_concat_markedEntry in_markedEntry by auto
    have "k \<noteq> k'" using k'(1) Cons.prems by auto
    from orders_okD(6) [OF ok r(1) k'(2) this r(2)] show ?thesis using r(3) k'(3) by simp
  qed
  have "set (map order (markedEntry p k)) \<inter> set (map order (concat (map (markedEntry p) ks))) = {}"
    using 3 by fastforce
  then show ?case using 1 2 by simp
qed

lemma collected_orders_distinct:
  assumes ok: "orders_ok p" and d: "distinct ks"
  shows "distinct (map order (pending p @ concat (map (markedEntry p) ks)))"
proof -
  have "order x \<noteq> order y"
    if x: "x \<in> set (pending p)" and y: "y \<in> set (concat (map (markedEntry p) ks))" for x y
  proof -
    obtain k' r' where k': "weakrefs p k' = Some r'" "0 < markOrder (heap p ! r')"
      "order y = markOrder (heap p ! r')"
      using y unfolding in_concat_markedEntry in_markedEntry by auto
    from orders_okD(5) [OF ok k'(1,2)] x show ?thesis using k'(3) by force
  qed
  then have "set (map order (pending p)) \<inter> set (map order (concat (map (markedEntry p) ks))) = {}"
    by fastforce
  then show ?thesis
    using orders_okD(3) [OF ok] markedEntry_orders_distinct [OF ok d] by simp
qed

lemma collected_set:
  assumes "set ks = dom (weakrefs p)"
  shows "set (pending p @ concat (map (markedEntry p) ks)) =
         set (pending p) \<union>
         {\<lparr>val = wiface_iface (w (heap p ! r)), order = markOrder (heap p ! r)\<rparr> | a r.
            weakrefs p a = Some r \<and> 0 < markOrder (heap p ! r)}"
proof -
  have "set (concat (map (markedEntry p) ks)) =
        {\<lparr>val = wiface_iface (w (heap p ! r)), order = markOrder (heap p ! r)\<rparr> | a r.
            weakrefs p a = Some r \<and> 0 < markOrder (heap p ! r)}" (is "?L = ?R")
  proof (intro set_eqI iffI)
    fix ov assume "ov \<in> ?L"
    then show "ov \<in> ?R" unfolding in_concat_markedEntry in_markedEntry by blast
  next
    fix ov assume "ov \<in> ?R"
    then obtain a r where ar: "weakrefs p a = Some r" "0 < markOrder (heap p ! r)"
      "ov = \<lparr>val = wiface_iface (w (heap p ! r)), order = markOrder (heap p ! r)\<rparr>"
      by blast
    then have "a \<in> set ks" using assms by auto
    with ar show "ov \<in> ?L" unfolding in_concat_markedEntry in_markedEntry by blast
  qed
  then show ?thesis by simp
qed

lemma marksCleared_unmarked:
  assumes reg: "registry_ok ob p" and ks: "set ks = dom (weakrefs p)" and cl: "marksCleared ks p p1"
  shows "unmarked (p1\<lparr>pending := []\<rparr>)"
  unfolding unmarked_def
proof (intro conjI allI impI)
  show "pending (p1\<lparr>pending := []\<rparr>) = []" by simp
next
  fix a r assume "weakrefs (p1\<lparr>pending := []\<rparr>) a = Some r"
  then have a: "weakrefs p a = Some r" using cl by (simp add: marksCleared_def)
  then have "a \<in> set ks" using ks by auto
  then have "markOrder (heap p1 ! r) = (if 0 < markOrder (heap p ! r) then 0 else markOrder (heap p ! r))"
    using cl a by (simp add: marksCleared_def)
  then show "\<not> 0 < markOrder (heap (p1\<lparr>pending := []\<rparr>) ! r)" by simp
  show "r < length (heap (p1\<lparr>pending := []\<rparr>))"
    using registry_okD(1) [OF reg a] cl by (simp add: marksCleared_def)
qed

lemma ExtractAllMarked_unmarked:
  assumes "unmarked p"
  shows "ExtractAllMarked ob hook ks p = Inr (hook [], p)"
proof -
  have "rangeWeakrefs ob ks (pending p) p = Inr (pending p, p)"
    by (rule rangeWeakrefs_unmarked) (use assms in \<open>simp add: unmarked_def\<close>)
  moreover have "pending p = []" using assms by (simp add: unmarked_def)
  ultimately show ?thesis by (simp add: ExtractAllMarked_def vals_def)
qed

lemma ExtractDeadMarked_unmarked: "unmarked p \<Longrightarrow> ExtractDeadMarked hook p = ([], p)"
  by (simp add: ExtractDeadMarked_def unmarked_def)

lemma unmarked_sub:
  assumes "unmarked p" "\<And>a r. weakrefs q a = Some r \<Longrightarrow> weakrefs p a = Some r"
    "pending q = []" "length (heap q) = length (heap p)"
    "\<And>i. markOrder (heap q ! i) = markOrder (heap p ! i)"
  shows "unmarked q"
  unfolding unmarked_def
proof (intro conjI allI impI)
  show "pending q = []" by (rule assms(3))
next
  fix a r assume "weakrefs q a = Some r"
  then have "weakrefs p a = Some r" by (rule assms(2))
  then have "r < length (heap p) \<and> \<not> 0 < markOrder (heap p ! r)"
    using assms(1) unfolding unmarked_def by blast
  then show "r < length (heap q)" "\<not> 0 < markOrder (heap q ! r)"
    by (simp_all add: assms(4,5))
qed

lemma unmarked_get:
  assumes "unmarked p" "get ob v p = Inr (r, p1)"
  shows "unmarked p1"
  using assms(2)
proof (cases rule: get_cases)
  case existing
  then show ?thesis using assms(1) by simp
next
  case fresh
  have old: "\<And>a r'. weakrefs p a = Some r' \<Longrightarrow> r' < length (heap p) \<and> \<not> 0 < markOrder (heap p ! r')"
    using assms(1) unfolding unmarked_def by blast
  have hp: "heap p1 = heap p @ [\<lparr>w = getwiface v, markOrder = 0, status = wrAlive\<rparr>]"
    and wr: "weakrefs p1 = (weakrefs p)(edata v \<mapsto> length (heap p))"
    and pe: "pending p1 = pending p"
    using fresh(5) by simp_all
  show ?thesis
    unfolding unmarked_def
  proof (intro conjI allI impI)
    show "pending p1 = []" using assms(1) pe by (simp add: unmarked_def)
  next
    fix a r' assume a: "weakrefs p1 a = Some r'"
    show "r' < length (heap p1)"
    proof (cases "a = edata v")
      case True
      then show ?thesis using a wr hp by simp
    next
      case False
      then have "weakrefs p a = Some r'" using a wr by simp
      from old [OF this] show ?thesis using hp by simp
    qed
    show "\<not> 0 < markOrder (heap p1 ! r')"
    proof (cases "a = edata v")
      case True
      then have "r' = length (heap p)" using a wr by simp
      then show ?thesis using hp by simp
    next
      case False
      then have "weakrefs p a = Some r'" using a wr by simp
      from old [OF this] show ?thesis using hp by (simp add: nth_append)
    qed
  qed
qed

lemma unmarked_Value: "unmarked p \<Longrightarrow> unmarked (snd (Value r p))"
proof (cases "status (heap p ! r) = wrDead")
  case True
  then show "unmarked p \<Longrightarrow> ?thesis" by (simp add: Value_def)
next
  case False
  assume u: "unmarked p"
  have "unmarked (p\<lparr>heap := (heap p)[r := (heap p ! r)\<lparr>status := wrResurrected\<rparr>]\<rparr>)"
    by (rule unmarked_sub [OF u]) (use u in \<open>simp_all add: unmarked_def nth_update_any\<close>)
  then show ?thesis using False by (simp add: Value_def)
qed

lemma unmarked_addPendingGC:
  assumes "unmarked p" "addPendingGC ob v p = Inr p1"
  shows "unmarked p1"
proof (cases "weakrefs p (edata v)")
  case None
  then show ?thesis using assms by (simp add: addPendingGC_spurious)
next
  case (Some r)
  have r: "r < length (heap p)" "\<not> 0 < markOrder (heap p ! r)"
    using assms(1) Some by (simp_all add: unmarked_def)
  have pe: "pending p = []" using assms(1) by (simp add: unmarked_def)
  show ?thesis
  proof (cases "status (heap p ! r) = wrResurrected")
    case True
    then obtain fs where
      p1: "p1 = p\<lparr>heap := (heap p)[r := (heap p ! r)\<lparr>status := wrAlive\<rparr>], finalizers := fs\<rparr>"
      using assms(2) Some
      by (auto simp: addPendingGC_def getwiface_def wiface_id_def split: sum.splits)
    show ?thesis
      by (rule unmarked_sub [OF assms(1)]) (simp_all add: p1 pe nth_update_any)
  next
    case False
    have p1: "p1 = p\<lparr>heap := (heap p)[r := (heap p ! r)\<lparr>status := wrDead\<rparr>],
                  pending := pending p @ [],
                  weakrefs := (weakrefs p)(edata v := None)\<rparr>"
      using assms(2) addPendingGC_dies [of p v r ob] Some False r by simp
    show ?thesis
      by (rule unmarked_sub [OF assms(1)]) (simp_all add: p1 pe nth_update_any split: if_splits)
  qed
qed

lemma unmarked_runFinalizer:
  assumes "unmarked p" "runFinalizer ob a p = Inr p1"
  shows "unmarked p1"
proof (cases "finalizers p a")
  case None
  then show ?thesis using assms by (simp add: runFinalizer_def)
next
  case (Some t)
  have "unmarked (p\<lparr>finalizers := (finalizers p)(a := None)\<rparr>)"
    using assms(1) by (simp add: unmarked_def)
  moreover have "addPendingGC ob \<lparr>etype = t, edata = a\<rparr> (p\<lparr>finalizers := (finalizers p)(a := None)\<rparr>) = Inr p1"
    using assms(2) Some by (simp add: runFinalizer_def)
  ultimately show ?thesis by (rule unmarked_addPendingGC)
qed

lemma step_unmarked:
  assumes u: "unmarked p" and nm: "\<not> isMark ev" and st: "step ob noHook ev p = Inr (out, p1)"
  shows "unmarked p1 \<and> extracted out = []"
proof (cases ev)
  case (EvGet v)
  then obtain r where "get ob v p = Inr (r, p1)" "out = RHandle r"
    using st by (auto simp: step_def Get_def split: sum.splits)
  then show ?thesis using unmarked_get [OF u] by simp
next
  case (EvMark v)
  then show ?thesis using nm by simp
next
  case (EvValue r)
  then show ?thesis using st u unmarked_Value [OF u, of r]
    by (auto simp: step_def split: if_splits)
next
  case (EvGC a)
  then have "runFinalizer ob a p = Inr p1" "out = RNone"
    using st by (auto simp: step_def split: sum.splits)
  then show ?thesis using unmarked_runFinalizer [OF u] by simp
next
  case EvExtractDead
  then show ?thesis using st u by (auto simp: step_def ExtractDeadMarked_unmarked)
next
  case (EvExtractAll ks)
  then show ?thesis using st u
    by (auto simp: step_def ExtractAllMarked_unmarked noHook_def)
qed

lemma run_unmarked:
  "unmarked p \<Longrightarrow> \<forall>ev \<in> set evs. \<not> isMark ev \<Longrightarrow> run ob noHook evs p = Inr (outs, p2) \<Longrightarrow>
   unmarked p2 \<and> (\<forall>out \<in> set outs. extracted out = [])"
proof (induction evs arbitrary: p outs)
  case Nil
  then show ?case by simp
next
  case (Cons ev evs)
  from Cons.prems(3) obtain out p1 outs1 where
    st: "step ob noHook ev p = Inr (out, p1)" and rn: "run ob noHook evs p1 = Inr (outs1, p2)"
    and outs: "outs = out # outs1"
    by (auto split: sum.splits)
  have 1: "unmarked p1 \<and> extracted out = []"
    using step_unmarked [OF Cons.prems(1) _ st] Cons.prems(2) by simp
  have 2: "unmarked p2 \<and> (\<forall>out \<in> set outs1. extracted out = [])"
    using Cons.IH [OF _ _ rn] 1 Cons.prems(2) by simp
  show ?case using 1 2 outs by simp
qed

lemma exHalf_eval:
  "exHalf = \<lparr>weakrefs = [64 \<mapsto> 0], pending = [\<lparr>val = exB, order = 2\<rparr>], lastMarkOrder = 2,
      heap = [\<lparr>w = (16, 64), markOrder = 1, status = wrAlive\<rparr>,
              \<lparr>w = (16, 128), markOrder = 2, status = wrDead\<rparr>],
      finalizers = [64 \<mapsto> 16]\<rparr>"
  by (simp add: exHalf_def pool_defs example_defs fun_upd_twist)

lemma ExtractAllMarked_result:
  assumes reg: "registry_ok ob p" and d: "distinct ks"
  shows "\<exists>p1. marksCleared ks p p1 \<and>
           (\<forall>hook. ExtractAllMarked ob hook ks p =
              Inr (hook (vals (sort_Sort (pending p @ concat (map (markedEntry p) ks)))),
                   p1\<lparr>pending := []\<rparr>))"
proof -
  obtain p1 where "rangeWeakrefs ob ks (pending p) p
        = Inr (pending p @ concat (map (markedEntry p) ks), p1)" and cl: "marksCleared ks p p1"
    using rangeWeakrefs_result [OF reg d, of "pending p"] by blast
  then have "\<forall>hook. ExtractAllMarked ob hook ks p =
              Inr (hook (vals (sort_Sort (pending p @ concat (map (markedEntry p) ks)))),
                   p1\<lparr>pending := []\<rparr>)"
    by (simp add: ExtractAllMarked_def)
  with cl show ?thesis by blast
qed

lemma pool_inv_exHalf: "pool_inv exampleObj exHalf"
  unfolding pool_inv_def registry_ok_def finalizers_ok_def orders_ok_def exHalf_eval
  by (auto simp: example_defs wiface_id_def wiface_iface_def split: if_splits)

text \<open>
  Claim C4. In a well-formed pool, with \<open>ks\<close> the keys of the registry in the order of the
  visit, \<^verbatim>\<open>ExtractAllMarked\<close> hands to \<^verbatim>\<open>runPrefinalizers\<close> (and with a hook that returns its
  argument returns) the values of a list that holds exactly the entries of the pending
  queue, which are the marked values already reclaimed, and an entry for every registered
  handle with a positive mark order, reclaimed or not, in strictly descending mark order.
  It leaves the registry as it is and the pool without marks: a second
  \<^verbatim>\<open>ExtractAllMarked\<close> returns the empty list, whatever the order of the visit, so does
  \<^verbatim>\<open>ExtractDeadMarked\<close>, and so does every extraction of any later history in which no
  value is marked again.
\<close>

theorem ExtractAllMarked_returns_all_marked:
  assumes "pool_inv objectAt p" "distinct ks" "set ks = dom (weakrefs p)"
  shows "\<exists>marked p1.
      ExtractAllMarked objectAt hook ks p = Inr (hook (vals marked), p1)
    \<and> ExtractAllMarked objectAt noHook ks p = Inr (vals marked, p1)
    \<and> set marked = set (pending p) \<union>
         {\<lparr>val = wiface_iface (w (heap p ! r)), order = markOrder (heap p ! r)\<rparr> | a r.
            weakrefs p a = Some r \<and> 0 < markOrder (heap p ! r)}
    \<and> sorted_wrt (\<lambda>x y. order x > order y) marked
    \<and> weakrefs p1 = weakrefs p \<and> unmarked p1
    \<and> (\<forall>ks'. ExtractAllMarked objectAt noHook ks' p1 = Inr ([], p1))
    \<and> ExtractDeadMarked hook p1 = ([], p1)
    \<and> (\<forall>evs outs p2. (\<forall>ev \<in> set evs. \<not> isMark ev) \<and>
           run objectAt noHook evs p1 = Inr (outs, p2) \<longrightarrow>
           (\<forall>out \<in> set outs. extracted out = []))"
proof -
  have reg: "registry_ok objectAt p" and ok: "orders_ok p"
    using assms(1) by (simp_all add: pool_inv_def)
  let ?coll = "pending p @ concat (map (markedEntry p) ks)"
  obtain q where cl: "marksCleared ks p q"
    and ex: "\<And>h. ExtractAllMarked objectAt h ks p = Inr (h (vals (sort_Sort ?coll)), q\<lparr>pending := []\<rparr>)"
    using ExtractAllMarked_result [OF reg assms(2)] by blast
  let ?p1 = "q\<lparr>pending := []\<rparr>"
  have 1: "ExtractAllMarked objectAt hook ks p = Inr (hook (vals (sort_Sort ?coll)), ?p1)"
    by (rule ex)
  have 2: "ExtractAllMarked objectAt noHook ks p = Inr (vals (sort_Sort ?coll), ?p1)"
    using ex [of noHook] by (simp add: noHook_def)
  have 3: "set (sort_Sort ?coll) = set (pending p) \<union>
         {\<lparr>val = wiface_iface (w (heap p ! r)), order = markOrder (heap p ! r)\<rparr> | a r.
            weakrefs p a = Some r \<and> 0 < markOrder (heap p ! r)}"
    unfolding set_sort_Sort by (rule collected_set [OF assms(3)])
  have 4: "sorted_wrt (\<lambda>x y. order x > order y) (sort_Sort ?coll)"
    using sort_Sort_strict [OF collected_orders_distinct [OF ok assms(2)]] by simp
  have 5: "weakrefs ?p1 = weakrefs p" using cl by (simp add: marksCleared_def)
  have 6: "unmarked ?p1" by (rule marksCleared_unmarked [OF reg assms(3) cl])
  have 7: "\<forall>ks'. ExtractAllMarked objectAt noHook ks' ?p1 = Inr ([], ?p1)"
    using ExtractAllMarked_unmarked [OF 6, of objectAt noHook] by (simp add: noHook_def)
  have 8: "ExtractDeadMarked hook ?p1 = ([], ?p1)"
    by (rule ExtractDeadMarked_unmarked [OF 6])
  have 9: "\<forall>evs outs p2. (\<forall>ev \<in> set evs. \<not> isMark ev) \<and>
           run objectAt noHook evs ?p1 = Inr (outs, p2) \<longrightarrow>
           (\<forall>out \<in> set outs. extracted out = [])"
    using run_unmarked [OF 6] by blast
  show ?thesis
    by (intro exI [of _ "sort_Sort ?coll"] exI [of _ ?p1] conjI) (fact 1 2 3 4 5 6 7 8 9)+
qed

theorem ExtractAllMarked_returns_all_marked_witness:
  "pool_inv exampleObj exHalf \<and> distinct [64 :: uintptr] \<and> set [64] = dom (weakrefs exHalf)
   \<and> map_sum id fst (ExtractAllMarked exampleObj noHook [64] exHalf) = Inr [exB, exA]
   \<and> map_sum id fst (ExtractAllMarked exampleObj noHook [64]
        (snd (projr (ExtractAllMarked exampleObj noHook [64] exHalf)))) = Inr []
   \<and> fst (ExtractDeadMarked noHook (snd (projr (ExtractAllMarked exampleObj noHook [64] exHalf)))) = []"
  using ExtractAllMarked_returns_all_marked [of exampleObj exHalf "[64]" noHook] pool_inv_exHalf
  by (simp add: exHalf_eval pool_defs example_defs rangeWeakrefs.simps(2))

subsection \<open>Well-formed pools along a history\<close>

lemma pool_inv_marksCleared:
  assumes inv: "pool_inv ob p" and cl: "marksCleared ks p q"
  shows "pool_inv ob (q\<lparr>pending := []\<rparr>)"
proof -
  have reg: "registry_ok ob p" and fok: "finalizers_ok ob p" and ok: "orders_ok p"
    using inv by (simp_all add: pool_inv_def)
  have wr: "weakrefs q = weakrefs p" and lm: "lastMarkOrder q = lastMarkOrder p"
    and len: "length (heap q) = length (heap p)"
    and ws: "\<And>i. w (heap q ! i) = w (heap p ! i)" "\<And>i. status (heap q ! i) = status (heap p ! i)"
    and fin: "\<And>a. finalizers q a = None \<or> finalizers q a = finalizers p a"
    using cl by (simp_all add: marksCleared_def)
  have mo: "\<And>a r. weakrefs p a = Some r \<Longrightarrow>
      markOrder (heap q ! r) = 0 \<or> markOrder (heap q ! r) = markOrder (heap p ! r)"
    using cl unfolding marksCleared_def by metis
  have 1: "registry_ok ob (q\<lparr>pending := []\<rparr>)"
    using reg unfolding registry_ok_def by (simp add: wr len ws)
  have 2: "finalizers_ok ob (q\<lparr>pending := []\<rparr>)"
    unfolding finalizers_ok_def
  proof (intro allI impI)
    fix a t assume "finalizers (q\<lparr>pending := []\<rparr>) a = Some t"
    then have "finalizers p a = Some t" using fin [of a] by auto
    then show "ob \<lparr>etype = t, edata = a\<rparr> = Tracked \<and> weakrefs (q\<lparr>pending := []\<rparr>) a \<noteq> None"
      using fok by (simp add: finalizers_ok_def wr)
  qed
  have 3: "orders_ok (q\<lparr>pending := []\<rparr>)"
  proof (rule orders_okI)
    show "0 \<le> lastMarkOrder (q\<lparr>pending := []\<rparr>)" using orders_okD(1) [OF ok] by (simp add: lm)
  next
    fix a r assume "weakrefs (q\<lparr>pending := []\<rparr>) a = Some r"
    then have a: "weakrefs p a = Some r" by (simp add: wr)
    show "markOrder (heap (q\<lparr>pending := []\<rparr>) ! r) \<le> lastMarkOrder (q\<lparr>pending := []\<rparr>)"
      using mo [OF a] orders_okD(1) [OF ok] orders_okD(4) [OF ok a] by (auto simp: lm)
  next
    fix a b ra rb
    assume "weakrefs (q\<lparr>pending := []\<rparr>) a = Some ra" "weakrefs (q\<lparr>pending := []\<rparr>) b = Some rb"
      and ab: "a \<noteq> b" and "0 < markOrder (heap (q\<lparr>pending := []\<rparr>) ! ra)"
    then have a: "weakrefs p a = Some ra" and b: "weakrefs p b = Some rb"
      and pos: "0 < markOrder (heap q ! ra)" by (simp_all add: wr)
    have same: "markOrder (heap q ! ra) = markOrder (heap p ! ra)" using mo [OF a] pos by auto
    from mo [OF b] show "markOrder (heap (q\<lparr>pending := []\<rparr>) ! ra) \<noteq> markOrder (heap (q\<lparr>pending := []\<rparr>) ! rb)"
    proof
      assume "markOrder (heap q ! rb) = 0"
      then show ?thesis using pos by simp
    next
      assume "markOrder (heap q ! rb) = markOrder (heap p ! rb)"
      then show ?thesis using orders_okD(6) [OF ok a b ab] pos same by simp
    qed
  qed simp_all
  show ?thesis using 1 2 3 by (simp add: pool_inv_def)
qed

lemma pool_inv_ExtractAllMarked:
  assumes "pool_inv ob p" "distinct ks" "ExtractAllMarked ob hook ks p = Inr (vs, p1)"
  shows "pool_inv ob p1"
proof -
  have reg: "registry_ok ob p" using assms(1) by (simp add: pool_inv_def)
  obtain q where "marksCleared ks p q" "p1 = q\<lparr>pending := []\<rparr>"
    using ExtractAllMarked_result [OF reg assms(2)] assms(3) by auto
  then show ?thesis using pool_inv_marksCleared [OF assms(1)] by simp
qed

lemma step_lastMarkOrder:
  assumes "step ob hook ev p = Inr (out, p1)"
  shows "lastMarkOrder p1 = (if isMark ev then int_incr (lastMarkOrder p) else lastMarkOrder p)"
proof (cases ev)
  case (EvGet v)
  then show ?thesis using assms
    by (auto simp: step_def Get_def split: sum.splits dest: get_lastMarkOrder)
next
  case (EvMark v)
  then show ?thesis using assms
    by (auto simp: step_def split: sum.splits dest: Mark_lastMarkOrder)
next
  case (EvValue r)
  then show ?thesis using assms by (auto simp: step_def Value_def split: if_splits)
next
  case (EvGC a)
  then have "runFinalizer ob a p = Inr p1" using assms by (auto simp: step_def split: sum.splits)
  then have "lastMarkOrder p1 = lastMarkOrder p"
    by (auto simp: runFinalizer_def addPendingGC_def Let_def split: option.splits sum.splits if_splits)
  then show ?thesis using EvGC by simp
next
  case EvExtractDead
  then show ?thesis using assms by (auto simp: step_def ExtractDeadMarked_def)
next
  case (EvExtractAll ks)
  then obtain vs where e: "ExtractAllMarked ob hook ks p = Inr (vs, p1)"
    using assms by (auto simp: step_def split: sum.splits)
  have "\<And>m m' q. rangeWeakrefs ob ks m p = Inr (m', q) \<Longrightarrow> lastMarkOrder q = lastMarkOrder p"
  proof -
    fix m m' q show "rangeWeakrefs ob ks m p = Inr (m', q) \<Longrightarrow> lastMarkOrder q = lastMarkOrder p"
      by (induction ks arbitrary: m p)
         (auto simp: rangeWeakrefs.simps(2) Let_def split: option.splits sum.splits if_splits)
  qed
  then have "lastMarkOrder p1 = lastMarkOrder p"
    using e by (auto simp: ExtractAllMarked_def split: sum.splits)
  then show ?thesis using EvExtractAll by simp
qed

lemma pool_inv_step:
  assumes inv: "pool_inv ob p" and st: "step ob hook ev p = Inr (out, p1)"
    and nw: "lastMarkOrder p < maxInt" and dv: "distinctVisit ev"
  shows "pool_inv ob p1"
proof (cases ev)
  case (EvGet v)
  then show ?thesis using st pool_inv_get [OF inv]
    by (auto simp: step_def Get_def split: sum.splits)
next
  case (EvMark v)
  then show ?thesis using st pool_inv_Mark [OF inv _ nw]
    by (auto simp: step_def split: sum.splits)
next
  case (EvValue r)
  then show ?thesis using st inv pool_inv_Value [OF inv, of r]
    by (auto simp: step_def split: if_splits)
next
  case (EvGC a)
  then show ?thesis using st pool_inv_runFinalizer [OF inv]
    by (auto simp: step_def split: sum.splits)
next
  case EvExtractDead
  then show ?thesis using st pool_inv_ExtractDeadMarked [OF inv, of hook]
    by (auto simp: step_def)
next
  case (EvExtractAll ks)
  then show ?thesis using st dv pool_inv_ExtractAllMarked [OF inv, of ks hook]
    by (auto simp: step_def split: sum.splits)
qed

lemma pool_inv_run:
  "pool_inv ob p \<Longrightarrow> run ob hook evs p = Inr (outs, p2) \<Longrightarrow>
   lastMarkOrder p + int (length evs) \<le> maxInt \<Longrightarrow> \<forall>ev \<in> set evs. distinctVisit ev \<Longrightarrow>
   pool_inv ob p2"
proof (induction evs arbitrary: p outs)
  case Nil
  then show ?case by simp
next
  case (Cons ev evs)
  from Cons.prems(2) obtain out p1 outs1 where
    st: "step ob hook ev p = Inr (out, p1)" and rn: "run ob hook evs p1 = Inr (outs1, p2)"
    by (auto split: sum.splits)
  have nw: "lastMarkOrder p < maxInt" using Cons.prems(3) by simp
  have 1: "pool_inv ob p1" using pool_inv_step [OF Cons.prems(1) st nw] Cons.prems(4) by simp
  have "lastMarkOrder p1 \<le> lastMarkOrder p + 1"
    using step_lastMarkOrder [OF st] int_incr_no_wrap [OF nw] by (simp split: if_splits)
  then have 2: "lastMarkOrder p1 + int (length evs) \<le> maxInt" using Cons.prems(3) by simp
  show ?case using Cons.IH [OF 1 rn 2] Cons.prems(4) by simp
qed

lemma pool_inv_pending_distinct: "pool_inv ob p \<Longrightarrow> distinct (map order (pending p))"
  by (simp add: pool_inv_def orders_okD(3))

lemma pool_inv_registered_alive:
  "pool_inv ob p \<Longrightarrow> weakrefs p a = Some r \<Longrightarrow> status (heap p ! r) \<noteq> wrDead"
  using registry_okD(4) [of ob p a r] by (simp add: pool_inv_def)

text \<open>
  Every pool that a history of at most \<open>maxInt\<close> events reaches from the new pool is
  well-formed.
\<close>

lemma pool_inv_reachable:
  assumes "run ob hook evs NewUnsafePool = Inr (outs, p)" "int (length evs) \<le> maxInt"
    "\<forall>ev \<in> set evs. distinctVisit ev"
  shows "pool_inv ob p"
  using pool_inv_run [OF pool_inv_NewUnsafePool assms(1) _ assms(3)] assms(2)
  by (simp add: NewUnsafePool_def)

subsection \<open>The mark order counter\<close>

lemma exTwo_eval:
  "exTwo = \<lparr>weakrefs = [64 \<mapsto> 0, 128 \<mapsto> 1], pending = [], lastMarkOrder = 2,
      heap = [\<lparr>w = (16, 64), markOrder = 1, status = wrAlive\<rparr>,
              \<lparr>w = (16, 128), markOrder = 2, status = wrAlive\<rparr>],
      finalizers = [64 \<mapsto> 16, 128 \<mapsto> 16]\<rparr>"
  by (simp add: exTwo_def pool_defs example_defs)

lemma pool_inv_exTwo: "pool_inv exampleObj exTwo"
proof -
  have 1: "pool_inv exampleObj (projr (Mark exampleObj exA NewUnsafePool))"
    by (rule pool_inv_Mark [OF pool_inv_NewUnsafePool, of _ exA])
       (simp_all add: pool_defs example_defs)
  have 2: "exTwo = projr (Mark exampleObj exB (projr (Mark exampleObj exA NewUnsafePool)))"
    by (simp add: exTwo_def pool_defs example_defs)
  show ?thesis unfolding 2
    by (rule pool_inv_Mark [OF 1, of exB]) (simp_all add: pool_defs example_defs)
qed

lemma Mark_inversion:
  assumes "Mark ob v p = Inr p1"
  shows "\<exists>r q. get ob v p = Inr (r, q) \<and> weakrefs q (edata v) = Some r
           \<and> p1 = q\<lparr>lastMarkOrder := int_incr (lastMarkOrder p),
                 heap := (heap q)[r := (heap q ! r)\<lparr>markOrder := int_incr (lastMarkOrder p)\<rparr>]\<rparr>"
proof -
  from assms obtain r q where g: "get ob v p = Inr (r, q)"
    and p1: "p1 = q\<lparr>lastMarkOrder := int_incr (lastMarkOrder p),
                 heap := (heap q)[r := (heap q ! r)\<lparr>markOrder := int_incr (lastMarkOrder p)\<rparr>]\<rparr>"
    by (auto simp: Mark_alt split: sum.splits)
  show ?thesis using g p1 get_registers [OF g] by blast
qed

lemma Mark_returns:
  assumes inv: "pool_inv ob p" and acc: "accepts (ob v)"
  shows "\<exists>p1. Mark ob v p = Inr p1"
proof -
  have nf: "weakrefs p (edata v) = None \<Longrightarrow> finalizers p (edata v) = None"
    using inv unfolding pool_inv_def finalizers_ok_def by (cases "finalizers p (edata v)") auto
  have "\<exists>r q. get ob v p = Inr (r, q)"
  proof (rule get_returns [of ob v p])
    show "accepts (ob v)" by (rule acc)
  qed (rule nf)
  then obtain r q where g: "get ob v p = Inr (r, q)" by blast
  then show ?thesis by (simp add: Mark_alt)
qed

lemma Mark_next_order:
  assumes inv: "pool_inv ob p" and nw: "lastMarkOrder p < maxInt" and m: "Mark ob v p = Inr p1"
  shows "lastMarkOrder p1 = lastMarkOrder p + 1
       \<and> (\<exists>r. weakrefs p1 (edata v) = Some r \<and> markOrder (heap p1 ! r) = lastMarkOrder p1
            \<and> (\<forall>b rb. weakrefs p1 b = Some rb \<and> b \<noteq> edata v \<longrightarrow>
                  markOrder (heap p1 ! rb) < markOrder (heap p1 ! r))
            \<and> (\<forall>ov \<in> set (pending p1). order ov < markOrder (heap p1 ! r)))
       \<and> pool_inv ob p1"
proof -
  let ?M = "lastMarkOrder p + 1"
  obtain r q where g: "get ob v p = Inr (r, q)" and a: "weakrefs q (edata v) = Some r"
    and p1: "p1 = q\<lparr>lastMarkOrder := ?M,
                 heap := (heap q)[r := (heap q ! r)\<lparr>markOrder := ?M\<rparr>]\<rparr>"
    using Mark_inversion [OF m] int_incr_no_wrap [OF nw] by auto
  have q: "pool_inv ob q" by (rule pool_inv_get [OF inv g])
  then have reg: "registry_ok ob q" and ok: "orders_ok q" by (simp_all add: pool_inv_def)
  have l: "lastMarkOrder q = lastMarkOrder p" by (rule get_lastMarkOrder [OF g])
  have r: "r < length (heap q)" by (rule registry_okD(1) [OF reg a])
  have here: "markOrder (heap p1 ! r) = ?M" using r by (simp add: p1)
  have 1: "lastMarkOrder p1 = lastMarkOrder p + 1" by (simp add: p1)
  have 2: "weakrefs p1 (edata v) = Some r" using a by (simp add: p1)
  have 3: "markOrder (heap p1 ! r) = lastMarkOrder p1" using here 1 by simp
  have 4: "\<forall>b rb. weakrefs p1 b = Some rb \<and> b \<noteq> edata v \<longrightarrow>
                markOrder (heap p1 ! rb) < markOrder (heap p1 ! r)"
  proof (intro allI impI)
    fix b rb assume b: "weakrefs p1 b = Some rb \<and> b \<noteq> edata v"
    then have b': "weakrefs q b = Some rb" by (simp add: p1)
    have "rb \<noteq> r" using registry_distinct_refs [OF reg b' a] b by simp
    then have "markOrder (heap p1 ! rb) = markOrder (heap q ! rb)"
      by (simp add: p1 nth_update_any)
    then show "markOrder (heap p1 ! rb) < markOrder (heap p1 ! r)"
      using orders_okD(4) [OF ok b'] l here by simp
  qed
  have 5: "\<forall>ov \<in> set (pending p1). order ov < markOrder (heap p1 ! r)"
  proof
    fix ov assume "ov \<in> set (pending p1)"
    then have "order ov \<le> lastMarkOrder q" using orders_okD(2) [OF ok, of ov] by (simp add: p1)
    then show "order ov < markOrder (heap p1 ! r)" using l here by simp
  qed
  have 6: "pool_inv ob p1" by (rule pool_inv_Mark [OF inv m nw])
  show ?thesis using 1 2 3 4 5 6 by blast
qed

lemma pool_inv_exFull: "pool_inv exampleObj exFull"
  by (simp add: exFull_def pool_inv_def registry_ok_def finalizers_ok_def orders_ok_def
      NewUnsafePool_def maxInt_def)

text \<open>
  Claim C6, as stated, fails in two ways. Where the counter is the largest \<^verbatim>\<open>int\<close>,
  \<^verbatim>\<open>p.lastMarkOrder++\<close> wraps around: the counter decreases to the smallest \<^verbatim>\<open>int\<close> and the
  value marked gets a negative mark order. And not every call of \<^verbatim>\<open>Mark\<close> assigns a mark
  order: for the nil pointer \<open>exNil\<close>, which is not registered, \<^verbatim>\<open>runtime.SetFinalizer\<close>
  aborts the program.
\<close>

theorem lastMarkOrder_wraps_counterexample:
  "pool_inv exampleObj exFull
   \<and> Mark exampleObj exA exFull = Inr (projr (Mark exampleObj exA exFull))
   \<and> lastMarkOrder (projr (Mark exampleObj exA exFull)) = minInt
   \<and> lastMarkOrder (projr (Mark exampleObj exA exFull)) < lastMarkOrder exFull
   \<and> markOrder (heap (projr (Mark exampleObj exA exFull)) ! 0) < 0
   \<and> Mark exampleObj exNil NewUnsafePool = Inl NotInHeap"
  using pool_inv_exFull by (simp add: exFull_def pool_defs example_defs)

text \<open>
  Claim C6, amended. The counter of a new pool is 0. In a well-formed pool \<^verbatim>\<open>Mark\<close> returns
  for every value that \<^verbatim>\<open>runtime.SetFinalizer\<close> accepts. Every call of \<^verbatim>\<open>Mark\<close> that
  returns, in a well-formed pool whose counter is below the largest \<^verbatim>\<open>int\<close>, increments
  the counter by one and makes the new counter the mark order of the value, whatever its
  mark order was; this mark order is greater than the mark order of every other
  registered handle and of every pending entry, so that the value comes first in a later
  extraction, also when it was marked before another value and is marked again. The pool
  stays well-formed.
\<close>

theorem Mark_assigns_next_order:
  "lastMarkOrder NewUnsafePool = 0
   \<and> (pool_inv objectAt p \<and> accepts (objectAt v) \<longrightarrow> (\<exists>p1. Mark objectAt v p = Inr p1))
   \<and> (\<forall>p1. pool_inv objectAt p \<and> lastMarkOrder p < maxInt \<and> Mark objectAt v p = Inr p1 \<longrightarrow>
         lastMarkOrder p1 = lastMarkOrder p + 1
         \<and> (\<exists>r. weakrefs p1 (edata v) = Some r \<and> markOrder (heap p1 ! r) = lastMarkOrder p1
              \<and> (\<forall>b rb. weakrefs p1 b = Some rb \<and> b \<noteq> edata v \<longrightarrow>
                    markOrder (heap p1 ! rb) < markOrder (heap p1 ! r))
              \<and> (\<forall>ov \<in> set (pending p1). order ov < markOrder (heap p1 ! r)))
         \<and> pool_inv objectAt p1)"
proof (intro conjI allI impI)
  show "lastMarkOrder NewUnsafePool = 0" by (simp add: NewUnsafePool_def)
next
  assume "pool_inv objectAt p \<and> accepts (objectAt v)"
  then show "\<exists>p1. Mark objectAt v p = Inr p1" using Mark_returns by blast
next
  fix p1 assume h: "pool_inv objectAt p \<and> lastMarkOrder p < maxInt \<and> Mark objectAt v p = Inr p1"
  then have "lastMarkOrder p1 = lastMarkOrder p + 1
       \<and> (\<exists>r. weakrefs p1 (edata v) = Some r \<and> markOrder (heap p1 ! r) = lastMarkOrder p1
            \<and> (\<forall>b rb. weakrefs p1 b = Some rb \<and> b \<noteq> edata v \<longrightarrow>
                  markOrder (heap p1 ! rb) < markOrder (heap p1 ! r))
            \<and> (\<forall>ov \<in> set (pending p1). order ov < markOrder (heap p1 ! r)))
       \<and> pool_inv objectAt p1"
    using Mark_next_order [of objectAt p v p1] by blast
  then show "lastMarkOrder p1 = lastMarkOrder p + 1"
    and "\<exists>r. weakrefs p1 (edata v) = Some r \<and> markOrder (heap p1 ! r) = lastMarkOrder p1
            \<and> (\<forall>b rb. weakrefs p1 b = Some rb \<and> b \<noteq> edata v \<longrightarrow>
                  markOrder (heap p1 ! rb) < markOrder (heap p1 ! r))
            \<and> (\<forall>ov \<in> set (pending p1). order ov < markOrder (heap p1 ! r))"
    and "pool_inv objectAt p1"
    by blast+
qed

theorem Mark_assigns_next_order_witness:
  "pool_inv exampleObj exTwo \<and> accepts (exampleObj exA) \<and> lastMarkOrder exTwo < maxInt
   \<and> lastMarkOrder exTwo = 2
   \<and> Mark exampleObj exA exTwo = Inr (projr (Mark exampleObj exA exTwo))
   \<and> lastMarkOrder (projr (Mark exampleObj exA exTwo)) = 3
   \<and> weakrefs (projr (Mark exampleObj exA exTwo)) (edata exA) = Some 0
   \<and> markOrder (heap (projr (Mark exampleObj exA exTwo)) ! 0) = 3
   \<and> markOrder (heap (projr (Mark exampleObj exA exTwo)) ! 1) = 2
   \<and> map_sum id fst (run exampleObj noHook
        [EvMark exA, EvMark exB, EvMark exA, EvGC 64, EvGC 128, EvExtractDead] NewUnsafePool)
      = Inr [RNone, RNone, RNone, RNone, RNone, RDead [exA, exB]]"
  using Mark_assigns_next_order [where objectAt = exampleObj and p = exTwo and v = exA]
    pool_inv_exTwo
  by (simp add: exTwo_eval pool_defs example_defs)

subsection \<open>Enqueueing along a history\<close>

lemma countData_append: "countData a (xs @ ys) = countData a xs + countData a ys"
  by (simp add: countData_def)

lemma countData_sort_Sort: "countData a (vals (sort_Sort xs)) = countData a (vals xs)"
proof -
  have "mset (vals (sort_Sort xs)) = mset (vals xs)"
    unfolding vals_def by (metis mset_map mset_sort_Sort)
  then have "size (filter_mset (\<lambda>v. edata v = a) (mset (vals (sort_Sort xs)))) =
             size (filter_mset (\<lambda>v. edata v = a) (mset (vals xs)))" by simp
  then show ?thesis unfolding countData_def by (simp only: mset_filter [symmetric] size_mset)
qed

lemma rangeWeakrefs_weakrefs:
  "rangeWeakrefs ob ks marked p = Inr (marked', p1) \<Longrightarrow> weakrefs p1 = weakrefs p"
proof (induction ks arbitrary: marked p)
  case Nil
  then show ?case by simp
next
  case (Cons k ks)
  show ?case
  proof (cases "markedEntry p k = []")
    case True
    then show ?thesis using Cons by (simp add: rangeWeakrefs_skip)
  next
    case False
    then obtain r where k: "weakrefs p k = Some r" and pos: "0 < markOrder (heap p ! r)"
      by (auto simp: markedEntry_def split: option.splits if_splits)
    then obtain fs where "rangeWeakrefs ob ks
        (marked @ [\<lparr>val = wiface_iface (w (heap p ! r)), order = markOrder (heap p ! r)\<rparr>])
        (p\<lparr>heap := (heap p)[r := (heap p ! r)\<lparr>markOrder := 0\<rparr>], finalizers := fs\<rparr>)
        = Inr (marked', p1)"
      using Cons.prems by (auto simp: rangeWeakrefs.simps(2) Let_def split: sum.splits)
    from Cons.IH [OF this] show ?thesis by simp
  qed
qed

lemma ExtractAllMarked_weakrefs:
  "ExtractAllMarked ob hook ks p = Inr (vs, p1) \<Longrightarrow> weakrefs p1 = weakrefs p \<and> pending p1 = []"
  by (auto simp: ExtractAllMarked_def split: sum.splits dest: rangeWeakrefs_weakrefs)

lemma get_counts:
  assumes "get ob v p = Inr (r, p1)"
  shows "pending p1 = pending p"
    and "registered p1 a = registered p a + (if edata v = a \<and> weakrefs p a = None then 1 else 0)"
  using assms
  by (cases rule: get_cases; auto simp: registered_def)+

lemma Mark_counts:
  assumes "Mark ob v p = Inr p1"
  shows "pending p1 = pending p"
    and "registered p1 a = registered p a + (if edata v = a \<and> weakrefs p a = None then 1 else 0)"
proof -
  from assms obtain r q where g: "get ob v p = Inr (r, q)"
    and p1: "weakrefs p1 = weakrefs q" "pending p1 = pending q"
    by (auto simp: Mark_alt split: sum.splits)
  show "pending p1 = pending p" using get_counts(1) [OF g] p1 by simp
  show "registered p1 a = registered p a + (if edata v = a \<and> weakrefs p a = None then 1 else 0)"
    using get_counts(2) [OF g, of a] p1 by (simp add: registered_def)
qed

lemma addPendingGC_counts:
  assumes "addPendingGC ob v p = Inr p1"
  shows "countData a (vals (pending p1)) + registered p1 a
           \<le> countData a (vals (pending p)) + registered p a"
proof (cases "weakrefs p (edata v)")
  case None
  then show ?thesis using assms by (simp add: addPendingGC_spurious)
next
  case (Some r)
  show ?thesis
  proof (cases "status (heap p ! r) = wrResurrected")
    case True
    then have "weakrefs p1 = weakrefs p" "pending p1 = pending p"
      using assms Some
      by (auto simp: addPendingGC_def getwiface_def wiface_id_def split: sum.splits)
    then show ?thesis by (simp add: registered_def)
  next
    case False
    then have w: "weakrefs p1 = (weakrefs p)(edata v := None)"
      and pe: "pending p1 = pending p \<or> (\<exists>n. pending p1 = pending p @ [\<lparr>val = v, order = n\<rparr>])"
      using assms Some
      by (auto simp: addPendingGC_def getwiface_def wiface_id_def Let_def)
    show ?thesis
    proof (cases "a = edata v")
      case True
      then have "registered p1 a = 0" "registered p a = 1"
        using w Some by (simp_all add: registered_def)
      moreover have "countData a (vals (pending p1)) \<le> countData a (vals (pending p)) + 1"
        using pe by (auto simp: countData_def vals_def)
      ultimately show ?thesis by simp
    next
      case False
      then have "registered p1 a = registered p a" using w by (simp add: registered_def)
      moreover have "countData a (vals (pending p1)) = countData a (vals (pending p))"
        using pe False by (auto simp: countData_def vals_def)
      ultimately show ?thesis by simp
    qed
  qed
qed

lemma runFinalizer_counts:
  assumes "runFinalizer ob b p = Inr p1"
  shows "countData a (vals (pending p1)) + registered p1 a
           \<le> countData a (vals (pending p)) + registered p a"
proof (cases "finalizers p b")
  case None
  then show ?thesis using assms by (simp add: runFinalizer_def)
next
  case (Some t)
  then have "addPendingGC ob \<lparr>etype = t, edata = b\<rparr> (p\<lparr>finalizers := (finalizers p)(b := None)\<rparr>) = Inr p1"
    using assms by (simp add: runFinalizer_def)
  from addPendingGC_counts [OF this, of a] show ?thesis by (simp add: registered_def)
qed

lemma step_counts:
  assumes "step ob noHook ev p = Inr (out, p1)"
  shows "deadReturns a [out] + countData a (vals (pending p1)) + registered p1 a
           \<le> countData a (vals (pending p)) + registered p a + (if creates a ev p then 1 else 0)"
proof (cases ev)
  case (EvGet v)
  then obtain r where g: "get ob v p = Inr (r, p1)" and o: "out = RHandle r"
    using assms by (auto simp: step_def Get_def split: sum.splits)
  show ?thesis using get_counts(1) [OF g] get_counts(2) [OF g, of a] by (simp add: EvGet o)
next
  case (EvMark v)
  then have m: "Mark ob v p = Inr p1" and o: "out = RNone"
    using assms by (auto simp: step_def split: sum.splits)
  show ?thesis using Mark_counts(1) [OF m] Mark_counts(2) [OF m, of a] by (simp add: EvMark o)
next
  case (EvValue r)
  then have "weakrefs p1 = weakrefs p" "pending p1 = pending p" "deadReturns a [out] = 0"
    using assms by (auto simp: step_def Value_def split: if_splits)
  then show ?thesis by (simp add: registered_def)
next
  case (EvGC b)
  then have f: "runFinalizer ob b p = Inr p1" and o: "out = RNone"
    using assms by (auto simp: step_def split: sum.splits)
  show ?thesis using runFinalizer_counts [OF f, of a] by (simp add: EvGC o)
next
  case EvExtractDead
  then have o: "out = RDead (fst (ExtractDeadMarked noHook p))" and p1: "p1 = snd (ExtractDeadMarked noHook p)"
    using assms by (auto simp: step_def)
  have "countData a (fst (ExtractDeadMarked noHook p)) = countData a (vals (pending p))"
    by (simp add: ExtractDeadMarked_def noHook_def countData_sort_Sort) (simp add: countData_def vals_def)
  moreover have "weakrefs p1 = weakrefs p" "pending p1 = []"
    by (simp_all add: p1 ExtractDeadMarked_def)
  ultimately show ?thesis by (simp add: o registered_def countData_def vals_def)
next
  case (EvExtractAll ks)
  then obtain vs where e: "ExtractAllMarked ob noHook ks p = Inr (vs, p1)" and o: "out = RAll vs"
    using assms by (auto simp: step_def split: sum.splits)
  show ?thesis using ExtractAllMarked_weakrefs [OF e]
    by (simp add: o registered_def countData_def vals_def)
qed

lemma run_counts:
  "run ob noHook evs p = Inr (outs, p2) \<Longrightarrow>
   deadReturns a outs + countData a (vals (pending p2)) + registered p2 a
     \<le> countData a (vals (pending p)) + registered p a + created ob noHook a evs p"
proof (induction evs arbitrary: p outs)
  case Nil
  then show ?case by simp
next
  case (Cons ev evs)
  from Cons.prems obtain out p1 outs1 where
    st: "step ob noHook ev p = Inr (out, p1)" and rn: "run ob noHook evs p1 = Inr (outs1, p2)"
    and outs: "outs = out # outs1"
    by (auto split: sum.splits)
  have d: "deadReturns a (out # outs1) = deadReturns a [out] + deadReturns a outs1"
    by (cases out) simp_all
  have c: "created ob noHook a (ev # evs) p = (if creates a ev p then 1 else 0) + created ob noHook a evs p1"
    using st by simp
  show ?case using step_counts [OF st, of a] Cons.IH [OF rn] unfolding outs d c by linarith
qed

text \<open>
  Claim C5, as stated, fails: a value that is marked again after a pending extraction
  returned it gets a new handle, is enqueued again when it is reclaimed again, and is
  returned by a second pending extraction.
\<close>

theorem returned_again_after_remark_counterexample:
  "map_sum id fst (run exampleObj noHook
      [EvMark exA, EvGC 64, EvExtractDead, EvMark exA, EvGC 64, EvExtractDead] NewUnsafePool)
     = Inr [RNone, RNone, RDead [exA], RNone, RNone, RDead [exA]]
   \<and> deadReturns 64 [RNone, RNone, RDead [exA], RNone, RNone, RDead [exA]] = 2"
  by (simp add: pool_defs example_defs countData_def)

text \<open>
  Claim C5, amended. In every history of a new pool and for every data word: the number
  of times pending extractions have returned a value with this data word, plus the
  number of its entries in the pending queue, plus one if a handle is registered for it,
  is at most the number of handles that \<^verbatim>\<open>Get\<close> and \<^verbatim>\<open>Mark\<close> have created for it. So a
  value is enqueued, and returned by a pending extraction, at most once for each handle
  created for it. The callback of a registered handle that is not resurrected removes
  the handle from the registry in the step that appends the value (if it is marked) to
  the queue, and a further callback for the value then changes nothing.
\<close>

theorem enqueued_once_per_WeakRef:
  "(\<forall>outs p. run objectAt noHook evs NewUnsafePool = Inr (outs, p) \<longrightarrow>
      deadReturns a outs + countData a (vals (pending p)) + (if weakrefs p a = None then 0 else 1)
        \<le> created objectAt noHook a evs NewUnsafePool)
   \<and> (\<forall>r. weakrefs q (edata v) = Some r \<and> r < length (heap q) \<and>
          status (heap q ! r) \<noteq> wrResurrected \<longrightarrow>
          (\<exists>q1. addPendingGC objectAt v q = Inr q1
             \<and> weakrefs q1 = (weakrefs q)(edata v := None)
             \<and> pending q1 = pending q @
                  (if 0 < markOrder (heap q ! r) then [\<lparr>val = v, order = markOrder (heap q ! r)\<rparr>] else [])
             \<and> addPendingGC objectAt v q1 = Inr q1))"
proof (intro conjI allI impI)
  fix outs p assume "run objectAt noHook evs NewUnsafePool = Inr (outs, p)"
  from run_counts [OF this, of a]
  show "deadReturns a outs + countData a (vals (pending p)) + (if weakrefs p a = None then 0 else 1)
        \<le> created objectAt noHook a evs NewUnsafePool"
    by (simp add: registered_def NewUnsafePool_def countData_def vals_def)
next
  fix r assume h: "weakrefs q (edata v) = Some r \<and> r < length (heap q) \<and>
          status (heap q ! r) \<noteq> wrResurrected"
  let ?q1 = "q\<lparr>heap := (heap q)[r := (heap q ! r)\<lparr>status := wrDead\<rparr>],
                  pending := pending q @
                    (if 0 < markOrder (heap q ! r) then [\<lparr>val = v, order = markOrder (heap q ! r)\<rparr>] else []),
                  weakrefs := (weakrefs q)(edata v := None)\<rparr>"
  have 1: "addPendingGC objectAt v q = Inr ?q1"
    using addPendingGC_dies [of q v r objectAt] h by simp
  have 2: "addPendingGC objectAt v ?q1 = Inr ?q1"
    by (rule addPendingGC_spurious) simp
  show "\<exists>q1. addPendingGC objectAt v q = Inr q1
             \<and> weakrefs q1 = (weakrefs q)(edata v := None)
             \<and> pending q1 = pending q @
                  (if 0 < markOrder (heap q ! r) then [\<lparr>val = v, order = markOrder (heap q ! r)\<rparr>] else [])
             \<and> addPendingGC objectAt v q1 = Inr q1"
    by (intro exI [of _ ?q1] conjI) (use 1 2 in simp_all)
qed

theorem enqueued_once_per_WeakRef_witness:
  "map_sum id fst (run exampleObj noHook
      [EvMark exA, EvGet exA, EvGC 64, EvGC 64, EvExtractDead, EvExtractDead] NewUnsafePool)
     = Inr [RNone, RHandle 0, RNone, RNone, RDead [exA], RDead []]
   \<and> created exampleObj noHook 64
       [EvMark exA, EvGet exA, EvGC 64, EvGC 64, EvExtractDead, EvExtractDead] NewUnsafePool = 1
   \<and> deadReturns 64 [RNone, RHandle 0, RNone, RNone, RDead [exA], RDead []] = 1
   \<and> weakrefs exMarked (edata exA) = Some 0 \<and> 0 < length (heap exMarked)
   \<and> status (heap exMarked ! 0) \<noteq> wrResurrected
   \<and> pending (projr (addPendingGC exampleObj exA exMarked)) = [\<lparr>val = exA, order = 1\<rparr>]
   \<and> weakrefs (projr (addPendingGC exampleObj exA exMarked)) (edata exA) = None
   \<and> addPendingGC exampleObj exA (projr (addPendingGC exampleObj exA exMarked))
       = Inr (projr (addPendingGC exampleObj exA exMarked))"
  using enqueued_once_per_WeakRef [of exampleObj
      "[EvMark exA, EvGet exA, EvGC 64, EvGC 64, EvExtractDead, EvExtractDead]" 64 exMarked exA]
  by (simp add: exMarked_eval pool_defs example_defs countData_def)

subsection \<open>A single pending queue\<close>
















end
